theory Spec2Isabelle
  imports Main "HOL-Library.AList" "HOL-Library.Word"
begin

section \<open>The cache engine of cmd/cache-server/main.go\<close>

text \<open>
  The engine is the Go type \<open>DistroCache\<close>: a map from keys to items, a map from tags
  to slices of keys, and a set of counters. Every method below takes the engine state
  and returns the new one; a method that also returns a value returns a pair.

  Clock readings are integers (nanoseconds on the process clock) and durations are
  integers (nanoseconds). Each call of \<open>time.Now\<close> or \<open>time.Since\<close> in the source is a
  separate reading, so the methods take one time argument per reading. \<open>Time.Sub\<close>
  saturates only beyond about 292 years, which two readings of one process never reach;
  the difference is modelled exactly.

  The counters of \<open>CacheStats\<close> are natural numbers; the gauge \<open>TotalItems\<close> holds the
  item count it was last set to. The histogram \<open>AvgAccessTime\<close> and the gauge
  \<open>MemoryUsage\<close> are not modelled (the first records floating-point durations, the
  second is never written).
\<close>

subsection \<open>Items and expiry\<close>

text \<open>\<open>CacheItem\<close>. The payload \<open>Value\<close> is opaque, so its type is a parameter. The
  field \<open>Metadata\<close>, an empty map that no method reads or writes after the item is built,
  is left out. \<open>AccessCount\<close> is an \<open>int64\<close>.\<close>

record 'v CacheItem =
  Key :: string
  Value :: 'v
  TTL :: int
  CreatedAt :: int
  AccessedAt :: int
  AccessCount :: "64 word"
  Tags :: "string list"

text \<open>\<open>IsExpired\<close>, with the reading of \<open>time.Since\<close> passed as \<open>now\<close>.\<close>

definition IsExpired :: "int \<Rightarrow> 'v CacheItem \<Rightarrow> bool" where
  "IsExpired now ci = (if TTL ci = 0 then False else now - CreatedAt ci > TTL ci)"

subsection \<open>Slices of keys and their backing arrays\<close>

text \<open>
  A Go slice is a header (pointer, length) onto a backing array; its capacity is the
  number of cells of the array, since every slice of the tag index starts at cell 0.
  The arrays live in \<open>heap\<close>, a list indexed by address. The zero slice \<open>nil\<close>, which a
  map lookup of a missing tag returns, is the \<open>None\<close> of the lookup.
\<close>

record slice =
  ptr :: nat
  len :: nat

definition elems :: "string list list \<Rightarrow> slice \<Rightarrow> string list" where
  "elems h s = take (len s) (h ! ptr s)"

text \<open>
  \<open>append(keys[:i], keys[i+1:]...)\<close> on a slice of length \<open>n\<close>: the capacity suffices, so
  the cells \<open>i+1 .. n-1\<close> are copied down by one in the same array, and the cell
  \<open>n-1\<close> and those after it keep their content.
\<close>

definition deleteAt :: "nat \<Rightarrow> nat \<Rightarrow> string list \<Rightarrow> string list" where
  "deleteAt i n cells = take i cells @ drop (Suc i) (take n cells) @ drop (n - 1) cells"

text \<open>The index at which \<open>for i, k := range keys { if k == key { ...; break } }\<close> stops.\<close>

fun indexOf :: "string \<Rightarrow> string list \<Rightarrow> nat option" where
  "indexOf key [] = None"
| "indexOf key (k # ks) = (if k = key then Some 0 else map_option Suc (indexOf key ks))"

subsection \<open>The engine state\<close>

record CacheConfig =
  MaxSize :: int
  DefaultTTL :: int

record CacheStats =
  Hits :: nat
  Misses :: nat
  Sets :: nat
  Deletes :: nat
  Evictions :: nat
  TotalItems :: nat

text \<open>
  \<open>data\<close> and \<open>tagIndex\<close> are Go maps, modelled as association lists with distinct keys.
  The order of \<open>data\<close> stands for the order in which \<open>range\<close> visits the map, which Go
  leaves unspecified: a statement proved for every state holds for every order.
  \<open>growslice\<close> is the runtime's growth policy: the number of spare cells it adds when
  \<open>append\<close> has to allocate an array for a slice of the given new length.
\<close>

record 'v DistroCache =
  data :: "(string \<times> 'v CacheItem) list"
  tagIndex :: "(string \<times> slice) list"
  heap :: "string list list"
  growslice :: "nat \<Rightarrow> nat"
  stats :: CacheStats
  config :: CacheConfig

definition NewDistroCache :: "CacheConfig \<Rightarrow> (nat \<Rightarrow> nat) \<Rightarrow> 'v DistroCache" where
  "NewDistroCache cfg g =
     \<lparr>data = [], tagIndex = [], heap = [], growslice = g,
      stats = \<lparr>Hits = 0, Misses = 0, Sets = 0, Deletes = 0, Evictions = 0, TotalItems = 0\<rparr>,
      config = cfg\<rparr>"

subsection \<open>The tag index\<close>

text \<open>One iteration of the loop of \<open>addToTagIndex\<close>:
  \<open>dc.tagIndex[tag] = append(dc.tagIndex[tag], key)\<close>. The append writes in place when
  the array has a free cell and allocates a new array otherwise.\<close>

definition appendKey :: "string \<Rightarrow> string \<Rightarrow> 'v DistroCache \<Rightarrow> 'v DistroCache" where
  "appendKey key tag dc =
     (case map_of (tagIndex dc) tag of
        None \<Rightarrow>
          dc\<lparr>heap := heap dc @ [key # replicate (growslice dc 1) []],
             tagIndex := AList.update tag \<lparr>ptr = length (heap dc), len = 1\<rparr> (tagIndex dc)\<rparr>
      | Some keys \<Rightarrow>
          (let cells = heap dc ! ptr keys in
           if len keys < length cells
           then dc\<lparr>heap := (heap dc)[ptr keys := cells[len keys := key]],
                   tagIndex := AList.update tag \<lparr>ptr = ptr keys, len = len keys + 1\<rparr> (tagIndex dc)\<rparr>
           else dc\<lparr>heap := heap dc @
                     [take (len keys) cells @ key # replicate (growslice dc (len keys + 1)) []],
                   tagIndex := AList.update tag \<lparr>ptr = length (heap dc), len = len keys + 1\<rparr>
                                 (tagIndex dc)\<rparr>))"

definition addToTagIndex :: "string \<Rightarrow> string list \<Rightarrow> 'v DistroCache \<Rightarrow> 'v DistroCache" where
  "addToTagIndex key tags dc = fold (appendKey key) tags dc"

text \<open>One iteration of the outer loop of \<open>removeFromTagIndex\<close>: the first occurrence of
  \<open>key\<close> is deleted from the slice of \<open>tag\<close> in place, and the tag is deleted from the map
  when the slice it now maps to (\<open>nil\<close> for a missing tag) has length 0.\<close>

definition removeKey :: "string \<Rightarrow> string \<Rightarrow> 'v DistroCache \<Rightarrow> 'v DistroCache" where
  "removeKey key tag dc =
     (let dc1 =
        (case map_of (tagIndex dc) tag of
           None \<Rightarrow> dc
         | Some keys \<Rightarrow>
             (case indexOf key (elems (heap dc) keys) of
                None \<Rightarrow> dc
              | Some i \<Rightarrow>
                  dc\<lparr>heap := (heap dc)[ptr keys := deleteAt i (len keys) (heap dc ! ptr keys)],
                     tagIndex := AList.update tag \<lparr>ptr = ptr keys, len = len keys - 1\<rparr>
                                   (tagIndex dc)\<rparr>))
      in if (case map_of (tagIndex dc1) tag of None \<Rightarrow> 0 | Some s \<Rightarrow> len s) = 0
         then dc1\<lparr>tagIndex := AList.delete tag (tagIndex dc1)\<rparr>
         else dc1)"

definition removeFromTagIndex :: "string \<Rightarrow> string list \<Rightarrow> 'v DistroCache \<Rightarrow> 'v DistroCache" where
  "removeFromTagIndex key tags dc = fold (removeKey key) tags dc"

subsection \<open>Eviction and the sweep\<close>

text \<open>The scan of \<open>evictLRU\<close> over the map. \<open>oldestTime\<close> starts as the zero \<open>Time\<close>,
  which is never compared: the test \<open>oldestKey == ""\<close> comes first.\<close>

definition lruStep ::
  "string \<times> 'v CacheItem \<Rightarrow> string \<times> int \<Rightarrow> string \<times> int" where
  "lruStep kv acc =
     (if fst acc = [] \<or> AccessedAt (snd kv) < snd acc then (fst kv, AccessedAt (snd kv))
      else acc)"

definition lruScan :: "(string \<times> 'v CacheItem) list \<Rightarrow> string \<times> int" where
  "lruScan kvs = fold lruStep kvs ([], 0)"

definition evictLRU :: "'v DistroCache \<Rightarrow> 'v DistroCache" where
  "evictLRU dc =
     (let oldestKey = fst (lruScan (data dc)) in
      if oldestKey \<noteq> []
      then (let dc1 = (case map_of (data dc) oldestKey of
                         Some item \<Rightarrow> removeFromTagIndex oldestKey (Tags item) dc
                       | None \<Rightarrow> dc);
                dc2 = dc1\<lparr>data := AList.delete oldestKey (data dc1)\<rparr>
            in dc2\<lparr>stats := (stats dc2)\<lparr>Evictions := Evictions (stats dc2) + 1\<rparr>\<rparr>)
      else dc)"

text \<open>\<open>cleanup\<close>: \<open>clock key\<close> is the reading of \<open>time.Since\<close> when the item of \<open>key\<close> is
  examined. Deleting the current key during a \<open>range\<close> over a map is allowed in Go and
  does not disturb the visit of the remaining keys.\<close>

definition cleanupStep ::
  "(string \<Rightarrow> int) \<Rightarrow> string \<times> 'v CacheItem \<Rightarrow> 'v DistroCache \<Rightarrow> 'v DistroCache" where
  "cleanupStep clock kv dc =
     (if IsExpired (clock (fst kv)) (snd kv)
      then (let dc1 = removeFromTagIndex (fst kv) (Tags (snd kv)) dc
            in dc1\<lparr>data := AList.delete (fst kv) (data dc1)\<rparr>)
      else dc)"

definition cleanup :: "(string \<Rightarrow> int) \<Rightarrow> 'v DistroCache \<Rightarrow> 'v DistroCache" where
  "cleanup clock dc =
     (let dc1 = fold (cleanupStep clock) (data dc) dc
      in dc1\<lparr>stats := (stats dc1)\<lparr>TotalItems := length (data dc1)\<rparr>\<rparr>)"

subsection \<open>Get, Set, Delete, InvalidateByTag\<close>

text \<open>\<open>Get\<close> returns the new state, the item (\<open>None\<close> for \<open>nil, false\<close>) and the key of
  the \<open>Delete\<close> it has started with \<open>go dc.Delete(key)\<close>, if any. \<open>tExp\<close> is the reading
  inside \<open>IsExpired\<close>, \<open>tAcc\<close> the one stored in \<open>AccessedAt\<close>.\<close>

definition Get ::
  "string \<Rightarrow> int \<Rightarrow> int \<Rightarrow> 'v DistroCache \<Rightarrow> 'v DistroCache \<times> 'v CacheItem option \<times> string option" where
  "Get key tExp tAcc dc =
     (case map_of (data dc) key of
        None \<Rightarrow> (dc\<lparr>stats := (stats dc)\<lparr>Misses := Misses (stats dc) + 1\<rparr>\<rparr>, None, None)
      | Some item \<Rightarrow>
          if IsExpired tExp item
          then (dc\<lparr>stats := (stats dc)\<lparr>Misses := Misses (stats dc) + 1\<rparr>\<rparr>, None, Some key)
          else (let item1 = item\<lparr>AccessedAt := tAcc, AccessCount := AccessCount item + 1\<rparr>
                in (dc\<lparr>data := AList.update key item1 (data dc),
                       stats := (stats dc)\<lparr>Hits := Hits (stats dc) + 1\<rparr>\<rparr>,
                    Some item1, None)))"

text \<open>\<open>Set\<close>: \<open>tCre\<close> and \<open>tAcc\<close> are the two readings of \<open>time.Now\<close>.\<close>

definition Set ::
  "string \<Rightarrow> 'v \<Rightarrow> int \<Rightarrow> string list \<Rightarrow> int \<Rightarrow> int \<Rightarrow> 'v DistroCache \<Rightarrow> 'v DistroCache" where
  "Set key val ttl tags tCre tAcc dc =
     (let dc1 = (if int (length (data dc)) \<ge> MaxSize (config dc) then evictLRU dc else dc);
          dc2 = (case map_of (data dc1) key of
                   Some oldItem \<Rightarrow> removeFromTagIndex key (Tags oldItem) dc1
                 | None \<Rightarrow> dc1);
          item = \<lparr>Key = key, Value = val, TTL = ttl, CreatedAt = tCre, AccessedAt = tAcc,
                  AccessCount = 1, Tags = tags\<rparr>;
          dc3 = dc2\<lparr>data := AList.update key item (data dc2)\<rparr>;
          dc4 = addToTagIndex key tags dc3;
          dc5 = dc4\<lparr>stats := (stats dc4)\<lparr>Sets := Sets (stats dc4) + 1\<rparr>\<rparr>
      in dc5\<lparr>stats := (stats dc5)\<lparr>TotalItems := length (data dc5)\<rparr>\<rparr>)"

definition Delete :: "string \<Rightarrow> 'v DistroCache \<Rightarrow> 'v DistroCache \<times> bool" where
  "Delete key dc =
     (case map_of (data dc) key of
        None \<Rightarrow> (dc, False)
      | Some item \<Rightarrow>
          (let dc1 = removeFromTagIndex key (Tags item) dc;
               dc2 = dc1\<lparr>data := AList.delete key (data dc1)\<rparr>;
               dc3 = dc2\<lparr>stats := (stats dc2)\<lparr>Deletes := Deletes (stats dc2) + 1\<rparr>\<rparr>
           in (dc3\<lparr>stats := (stats dc3)\<lparr>TotalItems := length (data dc3)\<rparr>\<rparr>, True)))"

text \<open>
  \<open>InvalidateByTag\<close>: the loop \<open>for _, key := range keys\<close> runs over the header \<open>keys\<close>
  read before the loop, so it makes \<open>len keys\<close> iterations and reads iteration \<open>j\<close>'s key
  from cell \<open>j\<close> of the array of \<open>keys\<close> as the array is at that moment. That array is
  the one \<open>removeFromTagIndex\<close> writes to when it deletes from the slice of \<open>tag\<close>.
\<close>

definition invalidateStep ::
  "slice \<Rightarrow> nat \<Rightarrow> 'v DistroCache \<times> nat \<Rightarrow> 'v DistroCache \<times> nat" where
  "invalidateStep keys j st =
     (let dc = fst st; deleted = snd st; key = heap dc ! ptr keys ! j in
      case map_of (data dc) key of
        None \<Rightarrow> (dc, deleted)
      | Some item \<Rightarrow>
          (let dc1 = removeFromTagIndex key (Tags item) dc
           in (dc1\<lparr>data := AList.delete key (data dc1)\<rparr>, deleted + 1)))"

definition InvalidateByTag :: "string \<Rightarrow> 'v DistroCache \<Rightarrow> 'v DistroCache \<times> nat" where
  "InvalidateByTag tag dc =
     (case map_of (tagIndex dc) tag of
        None \<Rightarrow> (dc, 0)
      | Some keys \<Rightarrow>
          (let st = fold (invalidateStep keys) [0..<len keys] (dc, 0);
               dc1 = (fst st)\<lparr>tagIndex := AList.delete tag (tagIndex (fst st))\<rparr>
           in (dc1\<lparr>stats := (stats dc1)\<lparr>TotalItems := length (data dc1)\<rparr>\<rparr>, snd st)))"

text \<open>The time-to-live \<open>handleSet\<close> passes to \<open>Set\<close> for the request field \<open>ttl\<close>:
  \<open>time.Duration(req.TTL) * time.Second\<close> is a 64-bit multiplication that wraps.\<close>

definition handleSetTTL :: "int \<Rightarrow> CacheConfig \<Rightarrow> int" where
  "handleSetTTL reqTTL cfg =
     (if reqTTL = 0 then DefaultTTL cfg
      else sint ((word_of_int reqTTL :: 64 word) * 1000000000))"

subsection \<open>The tag index as seen through the heap\<close>

text \<open>The keys a tag maps to: the elements of its slice, none for a missing tag.\<close>

definition bucket :: "'v DistroCache \<Rightarrow> string \<Rightarrow> string list" where
  "bucket dc t = (case map_of (tagIndex dc) t of None \<Rightarrow> [] | Some s \<Rightarrow> elems (heap dc) s)"

text \<open>
  What the Go runtime guarantees of the two maps and of the slices stored in the tag
  index: map keys are unique, every slice is a header onto an allocated array that is
  at least as long as the slice, and no two tags share an array.
\<close>

definition heapOk :: "'v DistroCache \<Rightarrow> bool" where
  "heapOk dc \<longleftrightarrow>
     distinct (map fst (data dc)) \<and>
     distinct (map fst (tagIndex dc)) \<and>
     distinct (map (\<lambda>ts. ptr (snd ts)) (tagIndex dc)) \<and>
     (\<forall>ts \<in> set (tagIndex dc).
        ptr (snd ts) < length (heap dc) \<and> len (snd ts) \<le> length (heap dc ! ptr (snd ts)))"

text \<open>
  Every occurrence of a key in the slice of a tag is matched by an occurrence of the tag
  in the tag list of the key's item: the index holds no association that the store does
  not back.
\<close>

definition tagCount :: "'v DistroCache \<Rightarrow> string \<Rightarrow> string \<Rightarrow> nat" where
  "tagCount dc k t = (case map_of (data dc) k of None \<Rightarrow> 0 | Some e \<Rightarrow> count_list (Tags e) t)"

definition indexBacked :: "'v DistroCache \<Rightarrow> bool" where
  "indexBacked dc \<longleftrightarrow>
     (\<forall>ts \<in> set (tagIndex dc). \<forall>k \<in> set (elems (heap dc) (snd ts)).
        count_list (elems (heap dc) (snd ts)) k \<le> tagCount dc k (fst ts))"

text \<open>
  The index lists a key under a tag exactly as often as the tag occurs in the tag list
  of the key's item: besides \<open>indexBacked\<close>, every tag of a stored item lists the key at
  least as often as the item's tag list has the tag.
\<close>

definition indexExact :: "'v DistroCache \<Rightarrow> bool" where
  "indexExact dc \<longleftrightarrow>
     indexBacked dc \<and>
     (\<forall>kv \<in> set (data dc). \<forall>t \<in> set (Tags (snd kv)).
        count_list (Tags (snd kv)) t \<le> count_list (bucket dc t) (fst kv))"

text \<open>No tag of the index maps to an empty slice.\<close>

definition noEmptyBucket :: "'v DistroCache \<Rightarrow> bool" where
  "noEmptyBucket dc \<longleftrightarrow> list_all (\<lambda>ts. len (snd ts) \<noteq> 0) (tagIndex dc)"

text \<open>The invariant of the specification: every tag of a stored item lists the item's
  key, every listed key is a stored item that bears the tag, and no tag maps to an
  empty slice.\<close>

definition consistent :: "'v DistroCache \<Rightarrow> bool" where
  "consistent dc \<longleftrightarrow>
     list_all (\<lambda>kv. list_all (\<lambda>t. fst kv \<in> set (bucket dc t)) (Tags (snd kv))) (data dc) \<and>
     list_all (\<lambda>ts. list_all (\<lambda>k. case map_of (data dc) k of
                                     None \<Rightarrow> False
                                   | Some e \<Rightarrow> fst ts \<in> set (Tags e))
                        (elems (heap dc) (snd ts))) (tagIndex dc) \<and>
     noEmptyBucket dc"

text \<open>The states the engine can be in: \<open>NewDistroCache\<close> builds the first, and every
  method leads from one to the next, whatever its arguments and the clock readings.\<close>

inductive reachable :: "'v DistroCache \<Rightarrow> bool" where
  init: "reachable (NewDistroCache cfg g)"
| set: "reachable dc \<Longrightarrow> reachable (Set key val ttl tags tCre tAcc dc)"
| get: "reachable dc \<Longrightarrow> reachable (fst (Get key tExp tAcc dc))"
| delete: "reachable dc \<Longrightarrow> reachable (fst (Delete key dc))"
| invalidate: "reachable dc \<Longrightarrow> reachable (fst (InvalidateByTag tag dc))"
| sweep: "reachable dc \<Longrightarrow> reachable (cleanup clock dc)"

text \<open>The statements of \<open>Set\<close> after the capacity check, as a function of the state
  they start in. \<open>Set\<close> above is the method; this function only names its second half
  for the proofs.\<close>

definition storeItem ::
  "string \<Rightarrow> 'v \<Rightarrow> int \<Rightarrow> string list \<Rightarrow> int \<Rightarrow> int \<Rightarrow> 'v DistroCache \<Rightarrow> 'v DistroCache" where
  "storeItem key val ttl tags tCre tAcc dc1 =
     (let dc2 = (case map_of (data dc1) key of
                   Some oldItem \<Rightarrow> removeFromTagIndex key (Tags oldItem) dc1
                 | None \<Rightarrow> dc1);
          item = \<lparr>Key = key, Value = val, TTL = ttl, CreatedAt = tCre, AccessedAt = tAcc,
                  AccessCount = 1, Tags = tags\<rparr>;
          dc3 = dc2\<lparr>data := AList.update key item (data dc2)\<rparr>;
          dc4 = addToTagIndex key tags dc3;
          dc5 = dc4\<lparr>stats := (stats dc4)\<lparr>Sets := Sets (stats dc4) + 1\<rparr>\<rparr>
      in dc5\<lparr>stats := (stats dc5)\<lparr>TotalItems := length (data dc5)\<rparr>\<rparr>)"

subsection \<open>Example states\<close>

definition demoConfig :: CacheConfig where
  "demoConfig = \<lparr>MaxSize = 10, DefaultTTL = 300000000000\<rparr>"

definition emptyCache :: "nat DistroCache" where
  "emptyCache = NewDistroCache demoConfig (\<lambda>n. n)"

text \<open>Three keys that bear the tag \<open>t\<close>, none of which expires.\<close>

definition taggedCache :: "nat DistroCache" where
  "taggedCache =
     Set ''c'' 3 0 [''t''] 3 3 (Set ''b'' 2 0 [''t''] 2 2 (Set ''a'' 1 0 [''t''] 1 1 emptyCache))"

text \<open>A key \<open>x\<close> that lives for 5 nanoseconds from time 0, and a key \<open>n\<close> stored through
  the time-to-live that \<open>handleSet\<close> computes for the request value \<open>-1\<close>.\<close>

definition ttlCache :: "nat DistroCache" where
  "ttlCache =
     Set ''n'' 8 (handleSetTTL (- 1) demoConfig) [] 0 0 (Set ''x'' 7 5 [''u''] 0 0 emptyCache)"

text \<open>A store of capacity 2 that holds two keys, \<open>a\<close> accessed before \<open>b\<close>.\<close>

definition fullCache :: "nat DistroCache" where
  "fullCache =
     Set ''b'' 2 0 [''u''] 2 2
       (Set ''a'' 1 0 [''t''] 1 1
          (NewDistroCache \<lparr>MaxSize = 2, DefaultTTL = 0\<rparr> (\<lambda>n. n)))"

text \<open>A store of capacity 0, and a store of capacity 1 that holds the empty key.\<close>

definition zeroCache :: "nat DistroCache" where
  "zeroCache = NewDistroCache \<lparr>MaxSize = 0, DefaultTTL = 0\<rparr> (\<lambda>n. n)"

definition emptyKeyCache :: "nat DistroCache" where
  "emptyKeyCache =
     Set [] 1 0 [] 1 1 (NewDistroCache \<lparr>MaxSize = 1, DefaultTTL = 0\<rparr> (\<lambda>n. n))"

section \<open>Frame properties of the tag index operations\<close>

lemma removeKey_frame [simp]:
  "data (removeKey key tag dc) = data dc"
  "stats (removeKey key tag dc) = stats dc"
  "config (removeKey key tag dc) = config dc"
  "growslice (removeKey key tag dc) = growslice dc"
  by (simp_all add: removeKey_def Let_def split: option.splits)

lemma removeFromTagIndex_frame [simp]:
  "data (removeFromTagIndex key tags dc) = data dc"
  "stats (removeFromTagIndex key tags dc) = stats dc"
  "config (removeFromTagIndex key tags dc) = config dc"
  "growslice (removeFromTagIndex key tags dc) = growslice dc"
  unfolding removeFromTagIndex_def
  by (induction tags arbitrary: dc; simp)+

lemma appendKey_frame [simp]:
  "data (appendKey key tag dc) = data dc"
  "stats (appendKey key tag dc) = stats dc"
  "config (appendKey key tag dc) = config dc"
  "growslice (appendKey key tag dc) = growslice dc"
  by (simp_all add: appendKey_def Let_def split: option.splits)

lemma addToTagIndex_frame [simp]:
  "data (addToTagIndex key tags dc) = data dc"
  "stats (addToTagIndex key tags dc) = stats dc"
  "config (addToTagIndex key tags dc) = config dc"
  "growslice (addToTagIndex key tags dc) = growslice dc"
  unfolding addToTagIndex_def
  by (induction tags arbitrary: dc; simp)+

section \<open>Get\<close>

lemma ttlCache_x:
  "map_of (data ttlCache) ''x'' =
     Some \<lparr>Key = ''x'', Value = 7, TTL = 5, CreatedAt = 0, AccessedAt = 0, AccessCount = 1,
           Tags = [''u'']\<rparr>"
  by code_simp


lemma ttlCache_q: "map_of (data ttlCache) ''q'' = None"
  by code_simp

text \<open>
  Claim C6. \<open>Get\<close> has three cases, which cover every state. When the key has no item, it
  counts a miss and returns nothing. When the item is expired, it counts a miss, starts
  the removal of the key and returns nothing, so the stale item is never returned. In
  the remaining case it stores the time of the access in \<open>AccessedAt\<close>, adds one to
  \<open>AccessCount\<close>, counts a hit and returns the item.
\<close>

theorem Get_three_cases:
  "(map_of (data dc) key = None \<longrightarrow>
      Get key tExp tAcc dc =
        (dc\<lparr>stats := (stats dc)\<lparr>Misses := Misses (stats dc) + 1\<rparr>\<rparr>, None, None)) \<and>
   (\<forall>item. map_of (data dc) key = Some item \<and> IsExpired tExp item \<longrightarrow>
      Get key tExp tAcc dc =
        (dc\<lparr>stats := (stats dc)\<lparr>Misses := Misses (stats dc) + 1\<rparr>\<rparr>, None, Some key)) \<and>
   (\<forall>item. map_of (data dc) key = Some item \<and> \<not> IsExpired tExp item \<longrightarrow>
      Get key tExp tAcc dc =
        (dc\<lparr>data := AList.update key
                       (item\<lparr>AccessedAt := tAcc, AccessCount := AccessCount item + 1\<rparr>) (data dc),
            stats := (stats dc)\<lparr>Hits := Hits (stats dc) + 1\<rparr>\<rparr>,
         Some (item\<lparr>AccessedAt := tAcc, AccessCount := AccessCount item + 1\<rparr>), None) \<and>
      map_of (data (fst (Get key tExp tAcc dc))) key =
        Some (item\<lparr>AccessedAt := tAcc, AccessCount := AccessCount item + 1\<rparr>))"
  by (simp add: Get_def Let_def update_conv')

theorem Get_three_cases_witness:
  "map_of (data ttlCache) ''q'' = None \<and>
   fst (snd (Get ''q'' 10 11 ttlCache)) = None \<and>
   Misses (stats (fst (Get ''q'' 10 11 ttlCache))) = Misses (stats ttlCache) + 1 \<and>
   (\<exists>item. map_of (data ttlCache) ''x'' = Some item \<and> IsExpired 10 item) \<and>
   snd (Get ''x'' 10 11 ttlCache) = (None, Some ''x'') \<and>
   Misses (stats (fst (Get ''x'' 10 11 ttlCache))) = Misses (stats ttlCache) + 1 \<and>
   (\<exists>item. map_of (data ttlCache) ''x'' = Some item \<and> \<not> IsExpired 3 item) \<and>
   snd (Get ''x'' 3 4 ttlCache) =
     (Some \<lparr>Key = ''x'', Value = 7, TTL = 5, CreatedAt = 0, AccessedAt = 4, AccessCount = 2,
            Tags = [''u'']\<rparr>, None) \<and>
   Hits (stats (fst (Get ''x'' 3 4 ttlCache))) = Hits (stats ttlCache) + 1"
  using Get_three_cases [of ttlCache "''q''" 10 11]
    Get_three_cases [of ttlCache "''x''" 10 11]
    Get_three_cases [of ttlCache "''x''" 3 4]
  by (simp add: ttlCache_x ttlCache_q IsExpired_def)

section \<open>Expiry\<close>

lemma cleanup_fold_keeps:
  "\<forall>kv \<in> set kvs. fst kv = key \<longrightarrow> \<not> IsExpired (clock key) (snd kv) \<Longrightarrow>
   map_of (data (fold (cleanupStep clock) kvs dc)) key = map_of (data dc) key"
proof (induction kvs arbitrary: dc)
  case Nil
  then show ?case by simp
next
  case (Cons kv kvs)
  have "map_of (data (cleanupStep clock kv dc)) key = map_of (data dc) key"
    using Cons.prems by (cases "fst kv = key") (auto simp: cleanupStep_def Let_def)
  with Cons show ?case by simp
qed

lemma taggedCache_a:
  "map_of (data taggedCache) ''a'' =
     Some \<lparr>Key = ''a'', Value = 1, TTL = 0, CreatedAt = 1, AccessedAt = 1, AccessCount = 1,
           Tags = [''t'']\<rparr>"
  by code_simp

lemma taggedCache_keys: "map fst (data taggedCache) = [''a'', ''b'', ''c'']"
  by code_simp

text \<open>
  Claim C7. An item is expired exactly when its time-to-live is not zero and the time
  since its creation exceeds it. An item whose time-to-live is zero is therefore never
  expired: \<open>Get\<close> returns it as a hit at every time, and the sweep \<open>cleanup\<close> leaves it in
  the store whatever the clock reads.
\<close>

theorem ttl_expiry_rule:
  "(IsExpired now e \<longleftrightarrow> TTL e \<noteq> 0 \<and> now - CreatedAt e > TTL e) \<and>
   (TTL e = 0 \<longrightarrow> \<not> IsExpired now e) \<and>
   (TTL e = 0 \<longrightarrow> distinct (map fst (data dc)) \<longrightarrow> map_of (data dc) key = Some e \<longrightarrow>
      Get key tExp tAcc dc =
        (dc\<lparr>data := AList.update key
                       (e\<lparr>AccessedAt := tAcc, AccessCount := AccessCount e + 1\<rparr>) (data dc),
            stats := (stats dc)\<lparr>Hits := Hits (stats dc) + 1\<rparr>\<rparr>,
         Some (e\<lparr>AccessedAt := tAcc, AccessCount := AccessCount e + 1\<rparr>), None) \<and>
      map_of (data (cleanup clock dc)) key = Some e)"
proof -
  have a: "IsExpired now e \<longleftrightarrow> TTL e \<noteq> 0 \<and> now - CreatedAt e > TTL e"
    by (simp add: IsExpired_def)
  have b: "map_of (data (cleanup clock dc)) key = Some e"
    if z: "TTL e = 0" and d: "distinct (map fst (data dc))" and m: "map_of (data dc) key = Some e"
  proof -
    have "\<forall>kv \<in> set (data dc). fst kv = key \<longrightarrow> \<not> IsExpired (clock key) (snd kv)"
    proof (intro ballI impI)
      fix kv assume "kv \<in> set (data dc)" "fst kv = key"
      then have "(key, snd kv) \<in> set (data dc)"
        by auto
      then have "map_of (data dc) key = Some (snd kv)"
        using d by (simp add: map_of_eq_Some_iff)
      with m have "snd kv = e" by simp
      with z show "\<not> IsExpired (clock key) (snd kv)" by (simp add: IsExpired_def)
    qed
    then have "map_of (data (fold (cleanupStep clock) (data dc) dc)) key = map_of (data dc) key"
      by (rule cleanup_fold_keeps)
    with m show ?thesis by (simp add: cleanup_def Let_def)
  qed
  have c: "Get key tExp tAcc dc =
        (dc\<lparr>data := AList.update key
                       (e\<lparr>AccessedAt := tAcc, AccessCount := AccessCount e + 1\<rparr>) (data dc),
            stats := (stats dc)\<lparr>Hits := Hits (stats dc) + 1\<rparr>\<rparr>,
         Some (e\<lparr>AccessedAt := tAcc, AccessCount := AccessCount e + 1\<rparr>), None)"
    if "TTL e = 0" "map_of (data dc) key = Some e"
    using that by (simp add: Get_def IsExpired_def Let_def)
  from a b c show ?thesis by blast
qed

theorem ttl_expiry_rule_witness:
  "TTL \<lparr>Key = ''a'', Value = 1::nat, TTL = 0, CreatedAt = 1, AccessedAt = 1, AccessCount = 1,
        Tags = [''t'']\<rparr> = 0 \<and>
   distinct (map fst (data taggedCache)) \<and>
   map_of (data taggedCache) ''a'' =
     Some \<lparr>Key = ''a'', Value = 1, TTL = 0, CreatedAt = 1, AccessedAt = 1, AccessCount = 1,
           Tags = [''t'']\<rparr> \<and>
   fst (snd (Get ''a'' 1000 1001 taggedCache)) =
     Some \<lparr>Key = ''a'', Value = 1, TTL = 0, CreatedAt = 1, AccessedAt = 1001, AccessCount = 2,
           Tags = [''t'']\<rparr> \<and>
   map_of (data (cleanup (\<lambda>k. 1000) taggedCache)) ''a'' =
     Some \<lparr>Key = ''a'', Value = 1, TTL = 0, CreatedAt = 1, AccessedAt = 1, AccessCount = 1,
           Tags = [''t'']\<rparr>"
  using ttl_expiry_rule [of 1000
      "\<lparr>Key = ''a'', Value = 1::nat, TTL = 0, CreatedAt = 1, AccessedAt = 1, AccessCount = 1,
        Tags = [''t'']\<rparr>" taggedCache "''a''" 1000 1001 "\<lambda>k. 1000"]
  by (simp add: taggedCache_a taggedCache_keys)





section \<open>The heap invariant in terms of map lookups\<close>

lemma heapOk_map:
  "heapOk dc \<longleftrightarrow>
     distinct (map fst (data dc)) \<and> distinct (map fst (tagIndex dc)) \<and>
     (\<forall>t s. map_of (tagIndex dc) t = Some s \<longrightarrow>
        ptr s < length (heap dc) \<and> len s \<le> length (heap dc ! ptr s)) \<and>
     (\<forall>t t' s s'. map_of (tagIndex dc) t = Some s \<longrightarrow> map_of (tagIndex dc) t' = Some s' \<longrightarrow>
        ptr s = ptr s' \<longrightarrow> t = t')"
proof (cases "distinct (map fst (tagIndex dc))")
  case False
  then show ?thesis by (simp add: heapOk_def)
next
  case d: True
  have m: "map_of (tagIndex dc) t = Some s \<longleftrightarrow> (t, s) \<in> set (tagIndex dc)" for t s
    using d by (simp add: map_of_eq_Some_iff)
  have "distinct (map (\<lambda>ts. ptr (snd ts)) (tagIndex dc)) \<longleftrightarrow>
        (\<forall>t t' s s'. (t, s) \<in> set (tagIndex dc) \<longrightarrow> (t', s') \<in> set (tagIndex dc) \<longrightarrow>
           ptr s = ptr s' \<longrightarrow> t = t')" (is "?L \<longleftrightarrow> ?R")
  proof
    assume ?L
    then have "inj_on (\<lambda>ts. ptr (snd ts)) (set (tagIndex dc))"
      by (simp add: distinct_map)
    then have "x = y" if "x \<in> set (tagIndex dc)" "y \<in> set (tagIndex dc)" "ptr (snd x) = ptr (snd y)" for x y
      using that by (auto dest: inj_onD)
    from this [of "(t, s)" "(t', s')" for t s t' s'] show ?R by auto
  next
    assume r: ?R
    have "distinct (tagIndex dc)" using d by (rule distinct_map [THEN iffD1, THEN conjunct1])
    moreover have "inj_on (\<lambda>ts. ptr (snd ts)) (set (tagIndex dc))"
    proof (rule inj_onI)
      fix x y assume xy: "x \<in> set (tagIndex dc)" "y \<in> set (tagIndex dc)" "ptr (snd x) = ptr (snd y)"
      then have "fst x = fst y" using r [rule_format, of "fst x" "snd x" "fst y" "snd y"] by simp
      moreover have "map_of (tagIndex dc) (fst x) = Some (snd x)"
        using xy(1) m [of "fst x" "snd x"] by simp
      moreover have "map_of (tagIndex dc) (fst y) = Some (snd y)"
        using xy(2) m [of "fst y" "snd y"] by simp
      ultimately have "fst x = fst y" "snd x = snd y" by simp_all
      then
      show "x = y" by (simp add: prod_eq_iff)
    qed
    ultimately show ?L by (simp add: distinct_map)
  qed
  then show ?thesis
    unfolding heapOk_def using d by (auto simp: m)
qed

section \<open>Deleting a key from the slice of a tag\<close>

lemma indexOf_None: "indexOf key xs = None \<longleftrightarrow> key \<notin> set xs"
  by (induction xs) auto

lemma indexOf_Some:
  "indexOf key xs = Some i \<Longrightarrow> i < length xs \<and> take i xs @ drop (Suc i) xs = remove1 key xs"
  by (induction xs arbitrary: i) (auto split: if_splits)

lemma deleteAt_length: "i < n \<Longrightarrow> n \<le> length cells \<Longrightarrow> length (deleteAt i n cells) = length cells"
  by (simp add: deleteAt_def)

lemma deleteAt_take:
  assumes "i < n" "n \<le> length cells"
  shows "take (n - Suc 0) (deleteAt i n cells) = take i cells @ drop (Suc i) (take n cells)"
proof -
  have l: "length (take i cells @ drop (Suc i) (take n cells)) = n - 1"
    using assms by simp
  have "take (n - 1) ((take i cells @ drop (Suc i) (take n cells)) @ drop (n - 1) cells) =
        take i cells @ drop (Suc i) (take n cells)"
    by (metis append_eq_conv_conj l)
  then show ?thesis by (simp add: deleteAt_def)
qed

lemma removeKey_tagIndex:
  "map_of (tagIndex (removeKey key tag dc)) =
     (case map_of (tagIndex dc) tag of
        None \<Rightarrow> map_of (tagIndex dc)
      | Some keys \<Rightarrow>
          (case indexOf key (elems (heap dc) keys) of
             None \<Rightarrow> if len keys = 0 then (map_of (tagIndex dc))(tag := None) else map_of (tagIndex dc)
           | Some i \<Rightarrow>
               if len keys - 1 = 0 then (map_of (tagIndex dc))(tag := None)
               else (map_of (tagIndex dc))(tag \<mapsto> \<lparr>ptr = ptr keys, len = len keys - 1\<rparr>)))"
  by (auto simp: removeKey_def Let_def update_conv' delete_conv' split: option.splits)

lemma removeKey_heap:
  "heap (removeKey key tag dc) =
     (case map_of (tagIndex dc) tag of
        None \<Rightarrow> heap dc
      | Some keys \<Rightarrow>
          (case indexOf key (elems (heap dc) keys) of
             None \<Rightarrow> heap dc
           | Some i \<Rightarrow> (heap dc)[ptr keys := deleteAt i (len keys) (heap dc ! ptr keys)]))"
  by (auto simp: removeKey_def Let_def split: option.splits)

lemma removeKey_distinct:
  "distinct (map fst (tagIndex dc)) \<Longrightarrow> distinct (map fst (tagIndex (removeKey key tag dc)))"
  by (auto simp: removeKey_def Let_def distinct_update distinct_delete split: option.splits)

lemma removeKey_bucket:
  assumes "heapOk dc"
  shows "bucket (removeKey key tag dc) t =
           (if t = tag then remove1 key (bucket dc tag) else bucket dc t)"
proof (cases "map_of (tagIndex dc) tag")
  case None
  then show ?thesis
    by (simp add: bucket_def removeKey_tagIndex removeKey_heap split: option.splits)
next
  case (Some keys)
  from assms Some have b: "ptr keys < length (heap dc)" "len keys \<le> length (heap dc ! ptr keys)"
    and sep: "\<And>t' s'. map_of (tagIndex dc) t' = Some s' \<Longrightarrow> t' \<noteq> tag \<Longrightarrow> ptr s' \<noteq> ptr keys"
    unfolding heapOk_map by blast+
  have el: "length (elems (heap dc) keys) = len keys"
    using b by (simp add: elems_def)
  show ?thesis
  proof (cases "indexOf key (elems (heap dc) keys)")
    case None
    then have "key \<notin> set (elems (heap dc) keys)" by (simp add: indexOf_None)
    then have "remove1 key (elems (heap dc) keys) = elems (heap dc) keys"
      by (simp add: remove1_idem)
    moreover have "len keys = 0 \<Longrightarrow> elems (heap dc) keys = []"
      by (simp add: elems_def)
    ultimately show ?thesis using Some None
      by (simp add: bucket_def removeKey_tagIndex removeKey_heap split: option.splits)
  next
    case (Some i)
    note ix = indexOf_Some [OF Some]
    from ix el have i: "i < len keys" by simp
    have "min i (len keys) = i" using i by simp
    then have r: "take i (heap dc ! ptr keys) @
             drop (Suc i) (take (len keys) (heap dc ! ptr keys)) =
             remove1 key (elems (heap dc) keys)"
      using ix by (simp add: elems_def)
    have other: "elems ((heap dc)[ptr keys := c]) s' = elems (heap dc) s'"
      if "map_of (tagIndex dc) t' = Some s'" "t' \<noteq> tag" for t' s' c
      using sep [OF that] by (simp add: elems_def)
    have self: "elems ((heap dc)[ptr keys := deleteAt i (len keys) (heap dc ! ptr keys)])
                   \<lparr>ptr = ptr keys, len = len keys - 1\<rparr> = remove1 key (elems (heap dc) keys)"
      using b i r by (simp add: elems_def deleteAt_take)
    have empty: "remove1 key (elems (heap dc) keys) = []" if "len keys - 1 = 0"
    proof -
      have "length (remove1 key (elems (heap dc) keys)) = len keys - 1"
        using ix el by (metis length_remove1 Some indexOf_None option.distinct(1))
      with that show ?thesis by simp
    qed
    show ?thesis using \<open>map_of (tagIndex dc) tag = Some keys\<close> Some self empty
      by (auto simp: bucket_def removeKey_tagIndex removeKey_heap other split: option.splits)
  qed
qed

lemma removeKey_heapOk:
  assumes "heapOk dc"
  shows "heapOk (removeKey key tag dc)"
proof (cases "map_of (tagIndex dc) tag")
  case None
  with assms show ?thesis
    unfolding heapOk_map
    by (simp add: removeKey_tagIndex removeKey_heap removeKey_distinct)
next
  case (Some keys)
  from assms Some have b: "ptr keys < length (heap dc)" "len keys \<le> length (heap dc ! ptr keys)"
    and sep: "\<And>t' s'. map_of (tagIndex dc) t' = Some s' \<Longrightarrow> t' \<noteq> tag \<Longrightarrow> ptr s' \<noteq> ptr keys"
    unfolding heapOk_map by blast+
  show ?thesis
  proof (cases "indexOf key (elems (heap dc) keys)")
    case None
    with assms Some show ?thesis
      unfolding heapOk_map
      by (auto simp: removeKey_tagIndex removeKey_heap removeKey_distinct)
  next
    case (Some i)
    from indexOf_Some [OF Some] b have i: "i < len keys" by (simp add: elems_def)
    have l: "length (deleteAt i (len keys) (heap dc ! ptr keys)) = length (heap dc ! ptr keys)"
      using i b by (simp add: deleteAt_length)
    have nth: "(heap dc)[ptr keys := c] ! ptr s' = heap dc ! ptr s'"
      if "map_of (tagIndex dc) t' = Some s'" "t' \<noteq> tag" for t' s' c
      using sep [OF that] by simp
    have b2: "len keys - Suc 0 \<le> length (heap dc ! ptr keys)"
      using b by simp
    from assms \<open>map_of (tagIndex dc) tag = Some keys\<close> Some b b2 l show ?thesis
      unfolding heapOk_map
      apply (simp add: removeKey_tagIndex removeKey_heap removeKey_distinct)
      apply (intro conjI impI allI)
         apply (auto simp: nth split: if_splits)
      done
  qed
qed

section \<open>Appending a key to the slice of a tag\<close>

lemma appendKey_tagIndex:
  "map_of (tagIndex (appendKey key tag dc)) =
     (case map_of (tagIndex dc) tag of
        None \<Rightarrow> (map_of (tagIndex dc))(tag \<mapsto> \<lparr>ptr = length (heap dc), len = 1\<rparr>)
      | Some keys \<Rightarrow>
          if len keys < length (heap dc ! ptr keys)
          then (map_of (tagIndex dc))(tag \<mapsto> \<lparr>ptr = ptr keys, len = len keys + 1\<rparr>)
          else (map_of (tagIndex dc))(tag \<mapsto> \<lparr>ptr = length (heap dc), len = len keys + 1\<rparr>))"
  by (auto simp: appendKey_def Let_def update_conv' split: option.splits)

lemma appendKey_heap:
  "heap (appendKey key tag dc) =
     (case map_of (tagIndex dc) tag of
        None \<Rightarrow> heap dc @ [key # replicate (growslice dc 1) []]
      | Some keys \<Rightarrow>
          if len keys < length (heap dc ! ptr keys)
          then (heap dc)[ptr keys := (heap dc ! ptr keys)[len keys := key]]
          else heap dc @ [take (len keys) (heap dc ! ptr keys) @
                            key # replicate (growslice dc (len keys + 1)) []])"
  by (auto simp: appendKey_def Let_def split: option.splits)

lemma appendKey_distinct:
  "distinct (map fst (tagIndex dc)) \<Longrightarrow> distinct (map fst (tagIndex (appendKey key tag dc)))"
  by (auto simp: appendKey_def Let_def distinct_update split: option.splits)

lemma appendKey_bucket:
  assumes "heapOk dc"
  shows "bucket (appendKey key tag dc) t =
           (if t = tag then bucket dc tag @ [key] else bucket dc t)"
proof -
  from assms have bd: "\<And>t' s'. map_of (tagIndex dc) t' = Some s' \<Longrightarrow>
      ptr s' < length (heap dc) \<and> len s' \<le> length (heap dc ! ptr s')"
    unfolding heapOk_map by blast
  show ?thesis
  proof (cases "map_of (tagIndex dc) tag")
    case None
    have "elems (heap dc @ [c]) s' = elems (heap dc) s'"
      if "map_of (tagIndex dc) t' = Some s'" for t' s' c
      using bd [OF that] by (simp add: elems_def nth_append)
    with None show ?thesis
      by (auto simp: bucket_def appendKey_tagIndex appendKey_heap elems_def split: option.splits)
  next
    case (Some keys)
    from assms Some have sep:
      "\<And>t' s'. map_of (tagIndex dc) t' = Some s' \<Longrightarrow> t' \<noteq> tag \<Longrightarrow> ptr s' \<noteq> ptr keys"
      unfolding heapOk_map by blast
    note b = bd [OF Some]
    have app: "elems (heap dc @ [c]) s' = elems (heap dc) s'"
      if "map_of (tagIndex dc) t' = Some s'" for t' s' c
      using bd [OF that] by (simp add: elems_def nth_append)
    have upd: "elems ((heap dc)[ptr keys := c]) s' = elems (heap dc) s'"
      if "map_of (tagIndex dc) t' = Some s'" "t' \<noteq> tag" for t' s' c
      using sep [OF that] by (simp add: elems_def)
    show ?thesis
    proof (cases "len keys < length (heap dc ! ptr keys)")
      case True
      then have "take (Suc (len keys)) ((heap dc ! ptr keys)[len keys := key]) =
                 take (len keys) (heap dc ! ptr keys) @ [key]"
        by (simp add: take_Suc_conv_app_nth)
      with Some True b upd show ?thesis
        by (auto simp: bucket_def appendKey_tagIndex appendKey_heap elems_def split: option.splits)
    next
      case False
      with b have "length (take (len keys) (heap dc ! ptr keys)) = len keys" by simp
      then have "take (Suc (len keys)) (take (len keys) (heap dc ! ptr keys) @ key # r) =
                 take (len keys) (heap dc ! ptr keys) @ [key]" for r
        by simp
      with Some False b app show ?thesis
        by (auto simp: bucket_def appendKey_tagIndex appendKey_heap elems_def split: option.splits)
    qed
  qed
qed

lemma heapOk_mapI:
  assumes "distinct (map fst (data dc))" "distinct (map fst (tagIndex dc))"
    and "\<And>t s. map_of (tagIndex dc) t = Some s \<Longrightarrow>
           ptr s < length (heap dc) \<and> len s \<le> length (heap dc ! ptr s)"
    and "\<And>t t' s s'. map_of (tagIndex dc) t = Some s \<Longrightarrow> map_of (tagIndex dc) t' = Some s' \<Longrightarrow>
           ptr s = ptr s' \<Longrightarrow> t = t'"
  shows "heapOk dc"
  unfolding heapOk_map using assms by blast

lemma appendKey_heapOk:
  assumes "heapOk dc"
  shows "heapOk (appendKey key tag dc)"
proof -
  from assms have bd: "\<And>t' s'. map_of (tagIndex dc) t' = Some s' \<Longrightarrow>
      ptr s' < length (heap dc) \<and> len s' \<le> length (heap dc ! ptr s')"
    and sep: "\<And>t t' s s'. map_of (tagIndex dc) t = Some s \<Longrightarrow> map_of (tagIndex dc) t' = Some s' \<Longrightarrow>
        ptr s = ptr s' \<Longrightarrow> t = t'"
    and d: "distinct (map fst (data dc))" "distinct (map fst (tagIndex dc))"
    unfolding heapOk_map by blast+
  define new where "new = the (map_of (tagIndex (appendKey key tag dc)) tag)"
  have m: "map_of (tagIndex (appendKey key tag dc)) = (map_of (tagIndex dc))(tag \<mapsto> new)"
    by (auto simp: new_def appendKey_tagIndex split: option.splits)
  have len: "length (heap dc) \<le> length (heap (appendKey key tag dc))"
    by (simp add: appendKey_heap split: option.splits)
  have nb: "ptr new < length (heap (appendKey key tag dc)) \<and>
            len new \<le> length (heap (appendKey key tag dc) ! ptr new)"
  proof (cases "map_of (tagIndex dc) tag")
    case None
    then show ?thesis by (simp add: new_def appendKey_tagIndex appendKey_heap)
  next
    case (Some keys)
    with bd [OF Some] show ?thesis
      by (simp add: new_def appendKey_tagIndex appendKey_heap)
  qed
  have old: "heap (appendKey key tag dc) ! ptr s' = heap dc ! ptr s' \<and> ptr s' \<noteq> ptr new"
    if s': "map_of (tagIndex dc) t' = Some s'" and ne: "t' \<noteq> tag" for t' s'
  proof (cases "map_of (tagIndex dc) tag")
    case None
    with bd [OF s'] show ?thesis
      by (simp add: new_def appendKey_tagIndex appendKey_heap nth_append)
  next
    case (Some keys)
    have "ptr s' \<noteq> ptr keys" using sep [OF s' Some] ne by auto
    with bd [OF s'] Some show ?thesis
      by (simp add: new_def appendKey_tagIndex appendKey_heap nth_append)
  qed
  show ?thesis
  proof (rule heapOk_mapI)
    show "distinct (map fst (data (appendKey key tag dc)))" using d by simp
    show "distinct (map fst (tagIndex (appendKey key tag dc)))" using d by (simp add: appendKey_distinct)
  next
    fix t s assume "map_of (tagIndex (appendKey key tag dc)) t = Some s"
    then consider "t = tag" "s = new" | "t \<noteq> tag" "map_of (tagIndex dc) t = Some s"
      unfolding m by (auto split: if_splits)
    then show "ptr s < length (heap (appendKey key tag dc)) \<and>
               len s \<le> length (heap (appendKey key tag dc) ! ptr s)"
    proof cases
      case 1
      with nb show ?thesis by simp
    next
      case 2
      with old [OF 2(2) 2(1)] bd [OF 2(2)] len show ?thesis by simp
    qed
  next
    fix t t' s s'
    assume a: "map_of (tagIndex (appendKey key tag dc)) t = Some s"
      "map_of (tagIndex (appendKey key tag dc)) t' = Some s'" "ptr s = ptr s'"
    show "t = t'"
    proof (cases "t = tag"; cases "t' = tag")
      assume "t = tag" "t' = tag" then show ?thesis by simp
    next
      assume t: "t = tag" "t' \<noteq> tag"
      with a have "s = new" "map_of (tagIndex dc) t' = Some s'" unfolding m by auto
      with old [OF this(2) t(2)] a(3) show ?thesis by simp
    next
      assume t: "t \<noteq> tag" "t' = tag"
      with a have "s' = new" "map_of (tagIndex dc) t = Some s" unfolding m by auto
      with old [OF this(2) t(1)] a(3) show ?thesis by simp
    next
      assume t: "t \<noteq> tag" "t' \<noteq> tag"
      with a have "map_of (tagIndex dc) t = Some s" "map_of (tagIndex dc) t' = Some s'"
        unfolding m by auto
      with sep a(3) show ?thesis by blast
    qed
  qed
qed

section \<open>Removing and adding the keys of all the tags of an item\<close>

lemma count_list_remove1:
  "count_list (remove1 x xs) y = (if x = y then count_list xs y - 1 else count_list xs y)"
  by (induction xs) auto

lemma removeAll_remove1: "removeAll x (remove1 x xs) = removeAll x xs"
  by (induction xs) auto

lemma funpow_remove1:
  "count_list xs key \<le> n \<Longrightarrow> (remove1 key ^^ n) xs = removeAll key xs"
proof (induction n arbitrary: xs)
  case 0
  then have "key \<notin> set xs" by (simp add: count_list_0_iff)
  then show ?case by simp
next
  case (Suc n)
  have "count_list (remove1 key xs) key \<le> n"
    using Suc.prems by (simp add: count_list_remove1)
  from Suc.IH [OF this] show ?case
    by (simp add: funpow_swap1 removeAll_remove1)
qed

lemma removeFromTagIndex_heapOk:
  "heapOk dc \<Longrightarrow> heapOk (removeFromTagIndex key tags dc)"
  unfolding removeFromTagIndex_def
  by (induction tags arbitrary: dc) (simp_all add: removeKey_heapOk)

lemma removeFromTagIndex_bucket:
  "heapOk dc \<Longrightarrow>
   bucket (removeFromTagIndex key tags dc) t = (remove1 key ^^ count_list tags t) (bucket dc t)"
  unfolding removeFromTagIndex_def
proof (induction tags arbitrary: dc)
  case Nil
  then show ?case by simp
next
  case (Cons tag tags)
  from Cons.IH [OF removeKey_heapOk [OF Cons.prems]] removeKey_bucket [OF Cons.prems]
  show ?case by (simp add: funpow_swap1)
qed

lemma addToTagIndex_heapOk:
  "heapOk dc \<Longrightarrow> heapOk (addToTagIndex key tags dc)"
  unfolding addToTagIndex_def
  by (induction tags arbitrary: dc) (simp_all add: appendKey_heapOk)

lemma addToTagIndex_bucket:
  "heapOk dc \<Longrightarrow>
   bucket (addToTagIndex key tags dc) t = bucket dc t @ replicate (count_list tags t) key"
  unfolding addToTagIndex_def
proof (induction tags arbitrary: dc)
  case Nil
  then show ?case by simp
next
  case (Cons tag tags)
  from Cons.IH [OF appendKey_heapOk [OF Cons.prems]] appendKey_bucket [OF Cons.prems]
  show ?case by (simp add: replicate_app_Cons_same)
qed

lemma noEmptyBucket_map:
  "distinct (map fst (tagIndex dc)) \<Longrightarrow>
   noEmptyBucket dc \<longleftrightarrow> (\<forall>t s. map_of (tagIndex dc) t = Some s \<longrightarrow> len s \<noteq> 0)"
  by (auto simp: noEmptyBucket_def list_all_iff map_of_eq_Some_iff)

lemma removeKey_noEmpty:
  assumes "distinct (map fst (tagIndex dc))" "noEmptyBucket dc"
  shows "noEmptyBucket (removeKey key tag dc)"
  using assms(2)
  unfolding noEmptyBucket_map [OF assms(1)] noEmptyBucket_map [OF removeKey_distinct [OF assms(1)]]
  by (auto simp: removeKey_tagIndex split: option.splits if_splits)

lemma appendKey_noEmpty:
  assumes "distinct (map fst (tagIndex dc))" "noEmptyBucket dc"
  shows "noEmptyBucket (appendKey key tag dc)"
  using assms(2)
  unfolding noEmptyBucket_map [OF assms(1)] noEmptyBucket_map [OF appendKey_distinct [OF assms(1)]]
  by (auto simp: appendKey_tagIndex split: option.splits if_splits)

lemma removeFromTagIndex_distinct:
  "distinct (map fst (tagIndex dc)) \<Longrightarrow>
   distinct (map fst (tagIndex (removeFromTagIndex key tags dc)))"
  unfolding removeFromTagIndex_def
  by (induction tags arbitrary: dc) (simp_all add: removeKey_distinct)

lemma removeFromTagIndex_noEmpty:
  "distinct (map fst (tagIndex dc)) \<Longrightarrow> noEmptyBucket dc \<Longrightarrow>
   noEmptyBucket (removeFromTagIndex key tags dc)"
  unfolding removeFromTagIndex_def
  by (induction tags arbitrary: dc) (simp_all add: removeKey_distinct removeKey_noEmpty)

lemma addToTagIndex_noEmpty:
  "distinct (map fst (tagIndex dc)) \<Longrightarrow> noEmptyBucket dc \<Longrightarrow>
   noEmptyBucket (addToTagIndex key tags dc)"
  unfolding addToTagIndex_def
  by (induction tags arbitrary: dc) (simp_all add: appendKey_distinct appendKey_noEmpty)

lemma indexBacked_map:
  assumes "heapOk dc"
  shows "indexBacked dc \<longleftrightarrow> (\<forall>t k. count_list (bucket dc t) k \<le> tagCount dc k t)"
proof
  assume ib: "indexBacked dc"
  show "\<forall>t k. count_list (bucket dc t) k \<le> tagCount dc k t"
  proof (intro allI)
    fix t k
    show "count_list (bucket dc t) k \<le> tagCount dc k t"
    proof (cases "map_of (tagIndex dc) t")
      case None
      then show ?thesis by (simp add: bucket_def)
    next
      case (Some s)
      then have in_ti: "(t, s) \<in> set (tagIndex dc)" by (rule map_of_SomeD)
      show ?thesis
      proof (cases "k \<in> set (elems (heap dc) s)")
        case True
        with ib in_ti Some show ?thesis
          by (force simp: indexBacked_def bucket_def)
      next
        case False
        then have "count_list (elems (heap dc) s) k = 0" by (simp add: count_list_0_iff)
        with Some show ?thesis by (simp add: bucket_def)
      qed
    qed
  qed
next
  assume r: "\<forall>t k. count_list (bucket dc t) k \<le> tagCount dc k t"
  from assms have d: "distinct (map fst (tagIndex dc))" by (simp add: heapOk_def)
  show "indexBacked dc"
    unfolding indexBacked_def
  proof (intro ballI)
    fix ts k assume "ts \<in> set (tagIndex dc)" "k \<in> set (elems (heap dc) (snd ts))"
    then have "map_of (tagIndex dc) (fst ts) = Some (snd ts)"
      using d by (simp add: map_of_eq_Some_iff)
    then have "bucket dc (fst ts) = elems (heap dc) (snd ts)" by (simp add: bucket_def)
    with r [rule_format, of "fst ts" k]
    show "count_list (elems (heap dc) (snd ts)) k \<le> tagCount dc k (fst ts)" by simp
  qed
qed

section \<open>Removing an item with its tag associations\<close>

lemma bucket_frame [simp]:
  "bucket (dc\<lparr>data := d\<rparr>) = bucket dc"
  "bucket (dc\<lparr>stats := s\<rparr>) = bucket dc"
  by (simp_all add: bucket_def fun_eq_iff split: option.splits)

lemma count_list_removeAll:
  "count_list (removeAll x xs) y = (if x = y then 0 else count_list xs y)"
  by (induction xs) auto

lemma heapOk_frame [simp]:
  "heapOk (dc\<lparr>stats := s\<rparr>) = heapOk dc"
  by (simp add: heapOk_def)

lemma heapOk_data:
  "heapOk dc \<Longrightarrow> distinct (map fst d) \<Longrightarrow> heapOk (dc\<lparr>data := d\<rparr>)"
  by (simp add: heapOk_def)

lemma indexBacked_frame [simp]:
  "indexBacked (dc\<lparr>stats := s\<rparr>) = indexBacked dc"
  by (simp add: indexBacked_def tagCount_def)

lemma noEmptyBucket_frame [simp]:
  "noEmptyBucket (dc\<lparr>stats := s\<rparr>) = noEmptyBucket dc"
  "noEmptyBucket (dc\<lparr>data := d\<rparr>) = noEmptyBucket dc"
  by (simp_all add: noEmptyBucket_def)

text \<open>Removing the tag associations of a stored key and then the key.\<close>

lemma dropItem:
  assumes h: "heapOk dc" and ib: "indexBacked dc" and m: "map_of (data dc) k0 = Some item"
  defines "dc1 \<equiv> (removeFromTagIndex k0 (Tags item) dc)\<lparr>data := AList.delete k0 (data dc)\<rparr>"
  shows "heapOk dc1" and "indexBacked dc1" and "bucket dc1 t = removeAll k0 (bucket dc t)"
proof -
  from h have d: "distinct (map fst (data dc))" by (simp add: heapOk_def)
  show h1: "heapOk dc1"
    unfolding dc1_def
    by (intro heapOk_data removeFromTagIndex_heapOk h distinct_delete d)
  have c: "count_list (bucket dc t) k0 \<le> count_list (Tags item) t" for t
    using ib m unfolding indexBacked_map [OF h] by (simp add: tagCount_def) (metis option.simps(5))
  show b: "bucket dc1 t = removeAll k0 (bucket dc t)" for t
    unfolding dc1_def
    by (simp add: removeFromTagIndex_bucket [OF h] funpow_remove1 [OF c])
  show "indexBacked dc1"
    unfolding indexBacked_map [OF h1]
  proof (intro allI)
    fix t k
    show "count_list (bucket dc1 t) k \<le> tagCount dc1 k t"
    proof (cases "k = k0")
      case True
      then show ?thesis by (simp add: b count_list_0_iff)
    next
      case False
      then have "tagCount dc1 k t = tagCount dc k t"
        by (simp add: dc1_def tagCount_def)
      moreover have "count_list (bucket dc1 t) k \<le> count_list (bucket dc t) k"
        unfolding b by (simp add: count_list_removeAll)
      ultimately show ?thesis
        using ib unfolding indexBacked_map [OF h] by (metis le_trans)
    qed
  qed
qed

section \<open>Delete\<close>

lemma length_delete_present:
  "distinct (map fst al) \<Longrightarrow> map_of al k = Some v \<Longrightarrow> length (AList.delete k al) = length al - 1"
proof (induction al)
  case Nil
  then show ?case by simp
next
  case (Cons a al)
  show ?case
  proof (cases "fst a = k")
    case True
    with Cons.prems have "k \<notin> fst ` set al" by auto
    with True show ?thesis by (cases a) (simp add: delete_id)
  next
    case False
    with Cons have "length (AList.delete k al) = length al - 1" by (cases a) auto
    moreover from False Cons.prems have "al \<noteq> []" by (cases a) auto
    ultimately show ?thesis using False by (cases a) (cases al; simp)
  qed
qed

lemma Delete_absent: "map_of (data dc) key = None \<Longrightarrow> Delete key dc = (dc, False)"
  by (simp add: Delete_def)

lemma Delete_present:
  "map_of (data dc) key = Some item \<Longrightarrow>
   Delete key dc =
     ((removeFromTagIndex key (Tags item) dc)
        \<lparr>data := AList.delete key (data dc),
         stats := (stats dc)\<lparr>Deletes := Deletes (stats dc) + 1,
                              TotalItems := length (AList.delete key (data dc))\<rparr>\<rparr>, True)"
  by (simp add: Delete_def Let_def)

text \<open>
  Claim C9. \<open>Delete\<close> of a key that has no item returns \<open>false\<close> and leaves the whole
  state as it is. \<open>Delete\<close> of a stored key returns \<open>true\<close>, takes the key out of the
  store and out of the slice of every tag (a tag whose slice becomes empty leaves the
  index, so no empty slice appears), adds one to the \<open>Deletes\<close> counter and sets the
  gauge to the new item count. A \<open>Get\<close> of the key is then a miss and a second \<open>Delete\<close>
  returns \<open>false\<close>.
\<close>

theorem Delete_spec:
  assumes "heapOk dc" "indexBacked dc"
  shows
   "(map_of (data dc) key = None \<longrightarrow> Delete key dc = (dc, False)) \<and>
    (\<forall>item. map_of (data dc) key = Some item \<longrightarrow>
       snd (Delete key dc) = True \<and>
       map_of (data (fst (Delete key dc))) = (map_of (data dc))(key := None) \<and>
       (\<forall>t. bucket (fst (Delete key dc)) t = removeAll key (bucket dc t)) \<and>
       (noEmptyBucket dc \<longrightarrow> noEmptyBucket (fst (Delete key dc))) \<and>
       stats (fst (Delete key dc)) =
         (stats dc)\<lparr>Deletes := Deletes (stats dc) + 1, TotalItems := length (data dc) - 1\<rparr> \<and>
       TotalItems (stats (fst (Delete key dc))) = length (data (fst (Delete key dc))) \<and>
       Get key tExp tAcc (fst (Delete key dc)) =
         ((fst (Delete key dc))
            \<lparr>stats := (stats (fst (Delete key dc)))
                        \<lparr>Misses := Misses (stats (fst (Delete key dc))) + 1\<rparr>\<rparr>, None, None) \<and>
       Delete key (fst (Delete key dc)) = (fst (Delete key dc), False))"
proof (intro conjI impI allI)
  assume "map_of (data dc) key = None"
  then show "Delete key dc = (dc, False)" by (rule Delete_absent)
next
  fix item assume m: "map_of (data dc) key = Some item"
  note D = Delete_present [OF m]
  from assms have d: "distinct (map fst (data dc))" "distinct (map fst (tagIndex dc))"
    by (simp_all add: heapOk_def)
  have l: "length (AList.delete key (data dc)) = length (data dc) - 1"
    using d(1) m by (rule length_delete_present)
  show "snd (Delete key dc) = True" by (simp add: D)
  show md: "map_of (data (fst (Delete key dc))) = (map_of (data dc))(key := None)"
    by (simp add: D delete_conv')
  show "bucket (fst (Delete key dc)) t = removeAll key (bucket dc t)" for t
    using dropItem(3) [OF assms m] by (simp add: D)
  show "noEmptyBucket (fst (Delete key dc))" if "noEmptyBucket dc"
    using removeFromTagIndex_noEmpty [OF d(2) that] by (simp add: D noEmptyBucket_def)
  show "stats (fst (Delete key dc)) =
         (stats dc)\<lparr>Deletes := Deletes (stats dc) + 1, TotalItems := length (data dc) - 1\<rparr>"
    by (simp add: D l)
  show "TotalItems (stats (fst (Delete key dc))) = length (data (fst (Delete key dc)))"
    by (simp add: D)
  from md have gone: "map_of (data (fst (Delete key dc))) key = None" by simp
  then show "Get key tExp tAcc (fst (Delete key dc)) =
         ((fst (Delete key dc))
            \<lparr>stats := (stats (fst (Delete key dc)))
                        \<lparr>Misses := Misses (stats (fst (Delete key dc))) + 1\<rparr>\<rparr>, None, None)"
    by (simp add: Get_def)
  from gone show "Delete key (fst (Delete key dc)) = (fst (Delete key dc), False)"
    by (rule Delete_absent)
qed

lemma taggedCache_ok: "heapOk taggedCache" "indexBacked taggedCache" "noEmptyBucket taggedCache"
  by code_simp+

lemma taggedCache_q: "map_of (data taggedCache) ''q'' = None"
  by code_simp

theorem Delete_spec_witness:
  "heapOk taggedCache \<and> indexBacked taggedCache \<and> noEmptyBucket taggedCache \<and>
   map_of (data taggedCache) ''q'' = None \<and>
   snd (Delete ''q'' taggedCache) = False \<and>
   (\<exists>item. map_of (data taggedCache) ''a'' = Some item) \<and>
   snd (Delete ''a'' taggedCache) = True \<and>
   map_of (data (fst (Delete ''a'' taggedCache))) ''a'' = None \<and>
   bucket (fst (Delete ''a'' taggedCache)) ''t'' = [''b'', ''c''] \<and>
   Deletes (stats (fst (Delete ''a'' taggedCache))) = 1 \<and>
   TotalItems (stats (fst (Delete ''a'' taggedCache))) = 2 \<and>
   snd (Get ''a'' 5 6 (fst (Delete ''a'' taggedCache))) = (None, None) \<and>
   snd (Delete ''a'' (fst (Delete ''a'' taggedCache))) = False"
proof -
  have b: "bucket taggedCache ''t'' = [''a'', ''b'', ''c'']" by code_simp
  have s: "stats taggedCache =
    \<lparr>Hits = 0, Misses = 0, Sets = 3, Deletes = 0, Evictions = 0, TotalItems = 3\<rparr>"
    by code_simp
  have l: "length (data taggedCache) = 3" by code_simp
  from Delete_spec [OF taggedCache_ok(1,2), of "''q''" 5 6]
    Delete_spec [OF taggedCache_ok(1,2), of "''a''" 5 6]
  show ?thesis
    by (simp add: taggedCache_ok taggedCache_q taggedCache_a b s l)
qed

section \<open>Eviction\<close>

lemma lruScan_snoc: "lruScan (kvs @ [kv]) = lruStep kv (lruScan kvs)"
  by (simp add: lruScan_def)

lemma lruScan_min:
  assumes "kvs \<noteq> []" "[] \<notin> fst ` set kvs"
  shows "fst (lruScan kvs) \<noteq> [] \<and>
         (\<exists>e. (fst (lruScan kvs), e) \<in> set kvs \<and> snd (lruScan kvs) = AccessedAt e) \<and>
         (\<forall>kv \<in> set kvs. snd (lruScan kvs) \<le> AccessedAt (snd kv))"
  using assms
proof (induction kvs rule: rev_induct)
  case Nil
  then show ?case by simp
next
  case (snoc kv kvs)
  show ?case
  proof (cases "kvs = []")
    case True
    with snoc.prems show ?thesis
      by (cases kv) (auto simp: lruScan_def lruStep_def)
  next
    case False
    with snoc have IH: "fst (lruScan kvs) \<noteq> []"
      "\<exists>e. (fst (lruScan kvs), e) \<in> set kvs \<and> snd (lruScan kvs) = AccessedAt e"
      "\<forall>kv \<in> set kvs. snd (lruScan kvs) \<le> AccessedAt (snd kv)"
      by auto
    from snoc.prems have k: "fst kv \<noteq> []" by auto
    show ?thesis
    proof (cases "AccessedAt (snd kv) < snd (lruScan kvs)")
      case True
      then have "lruScan (kvs @ [kv]) = (fst kv, AccessedAt (snd kv))"
        by (simp add: lruScan_snoc lruStep_def)
      with True IH(3) k show ?thesis by (cases kv) force
    next
      case False
      with IH(1) have "lruScan (kvs @ [kv]) = lruScan kvs"
        by (simp add: lruScan_snoc lruStep_def)
      with False IH show ?thesis by auto
    qed
  qed
qed

lemma Set_storeItem:
  "Set key val ttl tags tCre tAcc dc =
     storeItem key val ttl tags tCre tAcc
       (if int (length (data dc)) \<ge> MaxSize (config dc) then evictLRU dc else dc)"
  by (simp add: Set_def storeItem_def Let_def)

lemma lruScan_key:
  "fst (lruScan kvs) = [] \<or> (\<exists>e. (fst (lruScan kvs), e) \<in> set kvs)"
proof (induction kvs rule: rev_induct)
  case Nil
  then show ?case by (simp add: lruScan_def)
next
  case (snoc kv kvs)
  then show ?case
    by (cases kv) (auto simp: lruScan_snoc lruStep_def)
qed

lemma evictLRU_cases:
  assumes "distinct (map fst (data dc))"
  obtains (none) "fst (lruScan (data dc)) = []" "evictLRU dc = dc"
  | (evict) item where "fst (lruScan (data dc)) \<noteq> []"
      "map_of (data dc) (fst (lruScan (data dc))) = Some item"
      "evictLRU dc =
         (removeFromTagIndex (fst (lruScan (data dc))) (Tags item) dc)
           \<lparr>data := AList.delete (fst (lruScan (data dc))) (data dc),
            stats := (stats dc)\<lparr>Evictions := Evictions (stats dc) + 1\<rparr>\<rparr>"
proof (cases "fst (lruScan (data dc)) = []")
  case True
  then have "evictLRU dc = dc" by (simp add: evictLRU_def)
  with True show ?thesis by (rule none)
next
  case False
  with lruScan_key [of "data dc"] obtain e where "(fst (lruScan (data dc)), e) \<in> set (data dc)"
    by auto
  with assms have m: "map_of (data dc) (fst (lruScan (data dc))) = Some e"
    by (simp add: map_of_eq_Some_iff)
  with False have "evictLRU dc =
         (removeFromTagIndex (fst (lruScan (data dc))) (Tags e) dc)
           \<lparr>data := AList.delete (fst (lruScan (data dc))) (data dc),
            stats := (stats dc)\<lparr>Evictions := Evictions (stats dc) + 1\<rparr>\<rparr>"
    by (simp add: evictLRU_def Let_def)
  with False m show ?thesis by (rule evict)
qed

lemma evictLRU_ok:
  assumes h: "heapOk dc" and ib: "indexBacked dc"
  shows "heapOk (evictLRU dc)" and "indexBacked (evictLRU dc)"
proof -
  from h have d: "distinct (map fst (data dc))" by (simp add: heapOk_def)
  from d show "heapOk (evictLRU dc)"
  proof (cases rule: evictLRU_cases)
    case none
    with h show ?thesis by simp
  next
    case (evict item)
    from dropItem(1) [OF h ib evict(2)] show ?thesis by (simp add: evict(3))
  qed
  from d show "indexBacked (evictLRU dc)"
  proof (cases rule: evictLRU_cases)
    case none
    with ib show ?thesis by simp
  next
    case (evict item)
    from dropItem(2) [OF h ib evict(2)] show ?thesis by (simp add: evict(3))
  qed
qed

section \<open>Set\<close>

lemma count_list_replicate:
  "count_list (replicate n x) y = (if x = y then n else 0)"
  by (induction n) auto

lemma removeOld_bucket:
  fixes key :: string and dc1 :: "'v DistroCache"
  assumes h: "heapOk dc1" and ib: "indexBacked dc1"
  defines "dc2 \<equiv> (case map_of (data dc1) key of
                     Some oldItem \<Rightarrow> removeFromTagIndex key (Tags oldItem) dc1
                   | None \<Rightarrow> dc1)"
  shows "heapOk dc2" and "bucket dc2 t = removeAll key (bucket dc1 t)"
    and "data dc2 = data dc1" and "stats dc2 = stats dc1" and "config dc2 = config dc1"
    and "noEmptyBucket dc1 \<Longrightarrow> noEmptyBucket dc2"
proof -
  from h have d: "distinct (map fst (tagIndex dc1))" by (simp add: heapOk_def)
  show "heapOk dc2"
    using h by (simp add: dc2_def removeFromTagIndex_heapOk split: option.splits)
  show "data dc2 = data dc1" "stats dc2 = stats dc1" "config dc2 = config dc1"
    by (simp_all add: dc2_def split: option.splits)
  show "noEmptyBucket dc2" if "noEmptyBucket dc1"
    using that d by (simp add: dc2_def removeFromTagIndex_noEmpty split: option.splits)
  have c: "count_list (bucket dc1 t) key \<le> tagCount dc1 key t"
    using ib unfolding indexBacked_map [OF h] by blast
  show "bucket dc2 t = removeAll key (bucket dc1 t)"
  proof (cases "map_of (data dc1) key")
    case None
    with c have "key \<notin> set (bucket dc1 t)"
      by (simp add: tagCount_def count_list_0_iff)
    with None show ?thesis by (simp add: dc2_def)
  next
    case (Some old)
    with c have "count_list (bucket dc1 t) key \<le> count_list (Tags old) t"
      by (simp add: tagCount_def)
    with Some show ?thesis
      by (simp add: dc2_def removeFromTagIndex_bucket [OF h] funpow_remove1)
  qed
qed

lemma storeItem_ok:
  fixes key :: string and val :: 'v and ttl tCre tAcc :: int and tags :: "string list"
    and dc1 :: "'v DistroCache"
  assumes h: "heapOk dc1" and ib: "indexBacked dc1"
  defines "item \<equiv> \<lparr>Key = key, Value = val, TTL = ttl, CreatedAt = tCre, AccessedAt = tAcc,
                    AccessCount = 1, Tags = tags\<rparr>"
  defines "dcF \<equiv> storeItem key val ttl tags tCre tAcc dc1"
  shows "heapOk dcF" and "indexBacked dcF"
    and "bucket dcF t = removeAll key (bucket dc1 t) @ replicate (count_list tags t) key"
    and "data dcF = AList.update key item (data dc1)"
    and "stats dcF = (stats dc1)\<lparr>Sets := Sets (stats dc1) + 1,
                                 TotalItems := length (AList.update key item (data dc1))\<rparr>"
    and "config dcF = config dc1"
    and "noEmptyBucket dc1 \<Longrightarrow> noEmptyBucket dcF"
proof -
  define dc2 where "dc2 = (case map_of (data dc1) key of
                     Some oldItem \<Rightarrow> removeFromTagIndex key (Tags oldItem) dc1
                   | None \<Rightarrow> dc1)"
  note r = removeOld_bucket [OF h ib, of key, folded dc2_def]
  define dc3 where "dc3 = dc2\<lparr>data := AList.update key item (data dc1)\<rparr>"
  have F: "dcF = (addToTagIndex key tags dc3)
                   \<lparr>stats := (stats dc1)\<lparr>Sets := Sets (stats dc1) + 1,
                                 TotalItems := length (AList.update key item (data dc1))\<rparr>\<rparr>"
    by (simp add: dcF_def storeItem_def Let_def dc3_def dc2_def [symmetric] item_def r(3,4))
  from h have "distinct (map fst (data dc1))" by (simp add: heapOk_def)
  then have h3: "heapOk dc3"
    unfolding dc3_def by (intro heapOk_data r(1) distinct_update)
  show hF: "heapOk dcF"
    by (simp add: F addToTagIndex_heapOk [OF h3])
  show bF: "bucket dcF t = removeAll key (bucket dc1 t) @ replicate (count_list tags t) key" for t
  proof -
    have "bucket dcF t = bucket (addToTagIndex key tags dc3) t" by (simp add: F)
    also have "\<dots> = bucket dc3 t @ replicate (count_list tags t) key"
      by (rule addToTagIndex_bucket [OF h3])
    also have "bucket dc3 t = removeAll key (bucket dc1 t)" by (simp add: dc3_def r(2))
    finally show ?thesis .
  qed
  show dF: "data dcF = AList.update key item (data dc1)"
    by (simp add: F dc3_def)
  show "stats dcF = (stats dc1)\<lparr>Sets := Sets (stats dc1) + 1,
                                 TotalItems := length (AList.update key item (data dc1))\<rparr>"
    by (simp add: F)
  show "config dcF = config dc1"
    by (simp add: F dc3_def r(5))
  show "noEmptyBucket dcF" if "noEmptyBucket dc1"
  proof -
    from r(6) [OF that] have "noEmptyBucket dc3" by (simp add: dc3_def)
    moreover from h3 have "distinct (map fst (tagIndex dc3))" by (simp add: heapOk_def)
    ultimately show ?thesis by (simp add: F addToTagIndex_noEmpty)
  qed
  show "indexBacked dcF"
    unfolding indexBacked_map [OF hF]
  proof (intro allI)
    fix t k
    show "count_list (bucket dcF t) k \<le> tagCount dcF k t"
    proof (cases "k = key")
      case True
      then show ?thesis
        by (simp add: bF dF tagCount_def update_conv' item_def count_list_removeAll
            count_list_replicate)
    next
      case False
      then have "tagCount dcF k t = tagCount dc1 k t"
        by (simp add: dF tagCount_def update_conv')
      moreover from False have "count_list (bucket dcF t) k = count_list (bucket dc1 t) k"
        by (simp add: bF count_list_removeAll count_list_replicate)
      ultimately show ?thesis
        using ib unfolding indexBacked_map [OF h] by simp
    qed
  qed
qed

lemma Set_ok:
  assumes "heapOk dc" "indexBacked dc"
  shows "heapOk (Set key val ttl tags tCre tAcc dc)"
    and "indexBacked (Set key val ttl tags tCre tAcc dc)"
  unfolding Set_storeItem
  using assms by (simp_all add: storeItem_ok evictLRU_ok)

lemma length_update_present:
  "map_of al k = Some v \<Longrightarrow> length (AList.update k v' al) = length al"
  by (induction al) (auto split: if_splits)

lemma length_update_absent:
  "map_of al k = None \<Longrightarrow> length (AList.update k v' al) = Suc (length al)"
  by (induction al) (auto split: if_splits)

lemma member_count_list: "x \<in> set xs \<longleftrightarrow> 0 < count_list xs x"
  using count_list_0_iff [of xs x] by auto

lemma Set_key_buckets:
  assumes "heapOk dc" "indexBacked dc"
  shows "count_list (bucket (Set key val ttl tags tCre tAcc dc) t) key = count_list tags t"
proof -
  define dc1 where "dc1 = (if int (length (data dc)) \<ge> MaxSize (config dc) then evictLRU dc else dc)"
  have "heapOk dc1" "indexBacked dc1"
    using assms by (simp_all add: dc1_def evictLRU_ok)
  from storeItem_ok(3) [OF this]
  show ?thesis
    unfolding Set_storeItem dc1_def [symmetric]
    by (simp add: count_list_removeAll count_list_replicate)
qed

lemma Set_room:
  assumes "int (length (data dc)) < MaxSize (config dc)"
  shows "Set key val ttl tags tCre tAcc dc = storeItem key val ttl tags tCre tAcc dc"
  using assms by (simp add: Set_storeItem)

text \<open>
  A \<open>Set\<close> of a stored key in a store of fewer than \<open>MaxSize\<close> items evicts nothing,
  leaves the number of items as it was, maps the key to the new item and takes the key
  out of the slices of its old tags before it appends it to those of the new ones.
  Whatever the size of the store, after the \<open>Set\<close> the key is listed under a tag exactly
  when the tag is one of the new tags.
\<close>

lemma Set_existing_key:
  assumes "heapOk dc" "indexBacked dc" "map_of (data dc) key = Some old"
  shows
   "(int (length (data dc)) < MaxSize (config dc) \<longrightarrow>
       Evictions (stats (Set key val ttl tags tCre tAcc dc)) = Evictions (stats dc) \<and>
       length (data (Set key val ttl tags tCre tAcc dc)) = length (data dc) \<and>
       map_of (data (Set key val ttl tags tCre tAcc dc)) =
         (map_of (data dc))(key \<mapsto>
            \<lparr>Key = key, Value = val, TTL = ttl, CreatedAt = tCre, AccessedAt = tAcc,
             AccessCount = 1, Tags = tags\<rparr>) \<and>
       (\<forall>t. bucket (Set key val ttl tags tCre tAcc dc) t =
              removeAll key (bucket dc t) @ replicate (count_list tags t) key)) \<and>
    (\<forall>t. key \<in> set (bucket (Set key val ttl tags tCre tAcc dc) t) \<longleftrightarrow> t \<in> set tags)"
proof (intro conjI impI allI)
  assume room: "int (length (data dc)) < MaxSize (config dc)"
  note S = Set_room [OF room]
  note ok = storeItem_ok [OF assms(1,2)]
  show "Evictions (stats (Set key val ttl tags tCre tAcc dc)) = Evictions (stats dc)"
    by (simp add: S ok(5))
  show "length (data (Set key val ttl tags tCre tAcc dc)) = length (data dc)"
    using assms(3) by (simp add: S ok(4) length_update_present)
  show "map_of (data (Set key val ttl tags tCre tAcc dc)) =
         (map_of (data dc))(key \<mapsto>
            \<lparr>Key = key, Value = val, TTL = ttl, CreatedAt = tCre, AccessedAt = tAcc,
             AccessCount = 1, Tags = tags\<rparr>)"
    by (simp add: S ok(4) update_conv')
  show "bucket (Set key val ttl tags tCre tAcc dc) t =
          removeAll key (bucket dc t) @ replicate (count_list tags t) key" for t
    by (simp add: S ok(3))
next
  fix t
  show "key \<in> set (bucket (Set key val ttl tags tCre tAcc dc) t) \<longleftrightarrow> t \<in> set tags"
    unfolding member_count_list Set_key_buckets [OF assms(1,2)] ..
qed

lemma taggedCache_b:
  "map_of (data taggedCache) ''b'' =
     Some \<lparr>Key = ''b'', Value = 2, TTL = 0, CreatedAt = 2, AccessedAt = 2, AccessCount = 1,
           Tags = [''t'']\<rparr>"
  by code_simp

lemma taggedCache_facts:
  "length (data taggedCache) = 3" "MaxSize (config taggedCache) = 10"
  "Evictions (stats taggedCache) = 0"
  "bucket taggedCache ''t'' = [''a'', ''b'', ''c'']" "bucket taggedCache ''v'' = []"
  by code_simp+

lemma Set_existing_key_example:
  "heapOk taggedCache \<and> indexBacked taggedCache \<and>
   map_of (data taggedCache) ''b'' =
     Some \<lparr>Key = ''b'', Value = 2, TTL = 0, CreatedAt = 2, AccessedAt = 2, AccessCount = 1,
           Tags = [''t'']\<rparr> \<and>
   int (length (data taggedCache)) < MaxSize (config taggedCache) \<and>
   Evictions (stats (Set ''b'' 5 0 [''v''] 9 9 taggedCache)) = 0 \<and>
   length (data (Set ''b'' 5 0 [''v''] 9 9 taggedCache)) = 3 \<and>
   bucket (Set ''b'' 5 0 [''v''] 9 9 taggedCache) ''t'' = [''a'', ''c''] \<and>
   bucket (Set ''b'' 5 0 [''v''] 9 9 taggedCache) ''v'' = [''b''] \<and>
   ''b'' \<notin> set (bucket (Set ''b'' 5 0 [''v''] 9 9 taggedCache) ''t'')"
  using Set_existing_key [OF taggedCache_ok(1,2) taggedCache_b, of 5 0 "[''v'']" 9 9]
  by (simp add: taggedCache_ok taggedCache_b taggedCache_facts)

text \<open>
  Claim C3. A \<open>Set\<close> of a key that is already stored is meant to evict nothing and to
  leave the number of items as it was. \<open>Set\<close> tests the capacity before it looks the key
  up, so at capacity it evicts although the store does not grow: in a store of capacity
  2 that holds \<open>a\<close> and \<open>b\<close>, a \<open>Set\<close> of the stored key \<open>b\<close> evicts \<open>a\<close> and leaves
  one item, and a \<open>Set\<close> of the stored key \<open>a\<close> evicts \<open>a\<close> itself before it stores it
  again and counts an eviction.
\<close>

theorem Set_existing_key_at_capacity_evicts:
  "map_of (data fullCache) ''b'' =
     Some \<lparr>Key = ''b'', Value = 2, TTL = 0, CreatedAt = 2, AccessedAt = 2, AccessCount = 1,
           Tags = [''u'']\<rparr> \<and>
   length (data fullCache) = 2 \<and>
   MaxSize (config fullCache) = 2 \<and>
   Evictions (stats fullCache) = 0 \<and>
   Evictions (stats (Set ''b'' 5 0 [''w''] 9 9 fullCache)) = 1 \<and>
   length (data (Set ''b'' 5 0 [''w''] 9 9 fullCache)) = 1 \<and>
   map_of (data (Set ''b'' 5 0 [''w''] 9 9 fullCache)) ''a'' = None \<and>
   map_of (data fullCache) ''a'' =
     Some \<lparr>Key = ''a'', Value = 1, TTL = 0, CreatedAt = 1, AccessedAt = 1, AccessCount = 1,
           Tags = [''t'']\<rparr> \<and>
   Evictions (stats (Set ''a'' 5 0 [''w''] 9 9 fullCache)) = 1 \<and>
   length (data (Set ''a'' 5 0 [''w''] 9 9 fullCache)) = 2"
  by code_simp

text \<open>
  Claim C5, as the code has it. In a store that holds exactly \<open>MaxSize\<close> items, with
  \<open>MaxSize\<close> positive and no item under the empty key, a \<open>Set\<close> of a key that is not
  stored evicts exactly one item: one whose \<open>AccessedAt\<close> is at most that of every stored
  item. The victim leaves the store and the slice of every tag, the \<open>Evictions\<close> counter
  grows by one, the \<open>Deletes\<close> counter stays, and the store holds \<open>MaxSize\<close> items after
  the insertion.
\<close>

theorem Set_new_key_at_capacity:
  assumes h: "heapOk dc" and ib: "indexBacked dc"
    and full: "int (length (data dc)) = MaxSize (config dc)"
    and pos: "0 < MaxSize (config dc)"
    and ne: "[] \<notin> fst ` set (data dc)"
    and new: "map_of (data dc) key = None"
  shows
   "\<exists>victim item.
      map_of (data dc) victim = Some item \<and>
      (\<forall>kv \<in> set (data dc). AccessedAt item \<le> AccessedAt (snd kv)) \<and>
      map_of (data (Set key val ttl tags tCre tAcc dc)) =
        ((map_of (data dc))(victim := None))(key \<mapsto>
           \<lparr>Key = key, Value = val, TTL = ttl, CreatedAt = tCre, AccessedAt = tAcc,
            AccessCount = 1, Tags = tags\<rparr>) \<and>
      (\<forall>t. bucket (Set key val ttl tags tCre tAcc dc) t =
             removeAll victim (bucket dc t) @ replicate (count_list tags t) key) \<and>
      Evictions (stats (Set key val ttl tags tCre tAcc dc)) = Evictions (stats dc) + 1 \<and>
      Deletes (stats (Set key val ttl tags tCre tAcc dc)) = Deletes (stats dc) \<and>
      length (data (Set key val ttl tags tCre tAcc dc)) = length (data dc) \<and>
      TotalItems (stats (Set key val ttl tags tCre tAcc dc)) = length (data dc)"
proof -
  from h have d: "distinct (map fst (data dc))" by (simp add: heapOk_def)
  from full pos have nonempty: "data dc \<noteq> []" by auto
  define victim where "victim = fst (lruScan (data dc))"
  from lruScan_min [OF nonempty ne] obtain e where
    v: "victim \<noteq> []" "(victim, e) \<in> set (data dc)" "snd (lruScan (data dc)) = AccessedAt e"
    and least: "\<forall>kv \<in> set (data dc). snd (lruScan (data dc)) \<le> AccessedAt (snd kv)"
    unfolding victim_def by blast
  from v(2) d have mv: "map_of (data dc) victim = Some e" by (simp add: map_of_eq_Some_iff)
  from mv new have vk: "victim \<noteq> key" by auto
  have E: "evictLRU dc =
         (removeFromTagIndex victim (Tags e) dc)
           \<lparr>data := AList.delete victim (data dc),
            stats := (stats dc)\<lparr>Evictions := Evictions (stats dc) + 1\<rparr>\<rparr>"
    using d
  proof (cases rule: evictLRU_cases)
    case none
    with v(1) show ?thesis by (simp add: victim_def)
  next
    case (evict item)
    with mv show ?thesis by (simp add: victim_def)
  qed
  have S: "Set key val ttl tags tCre tAcc dc = storeItem key val ttl tags tCre tAcc (evictLRU dc)"
    using full by (simp add: Set_storeItem)
  note ok = storeItem_ok [OF evictLRU_ok [OF h ib], of key val ttl tags tCre tAcc, folded S]
  have b1: "bucket (evictLRU dc) t = removeAll victim (bucket dc t)" for t
    using dropItem(3) [OF h ib mv] by (simp add: E)
  have "count_list (bucket dc t) key \<le> tagCount dc key t" for t
    using ib unfolding indexBacked_map [OF h] by blast
  then have nk: "key \<notin> set (bucket dc t)" for t
    using new by (simp add: tagCount_def count_list_0_iff)
  have gone: "map_of (AList.delete victim (data dc)) key = None"
    using new by (simp add: delete_conv')
  have len: "length (AList.delete victim (data dc)) = length (data dc) - 1"
    using d mv by (rule length_delete_present)
  have l: "length (data (Set key val ttl tags tCre tAcc dc)) = length (data dc)"
    using nonempty by (simp add: ok(4) E length_update_absent [OF gone] len)
  have "map_of (data dc) victim = Some e" by (rule mv)
  moreover have "\<forall>kv \<in> set (data dc). AccessedAt e \<le> AccessedAt (snd kv)"
    using least v(3) by simp
  moreover have "map_of (data (Set key val ttl tags tCre tAcc dc)) =
        ((map_of (data dc))(victim := None))(key \<mapsto>
           \<lparr>Key = key, Value = val, TTL = ttl, CreatedAt = tCre, AccessedAt = tAcc,
            AccessCount = 1, Tags = tags\<rparr>)"
    by (simp add: ok(4) E update_conv' delete_conv')
  moreover have "\<forall>t. bucket (Set key val ttl tags tCre tAcc dc) t =
             removeAll victim (bucket dc t) @ replicate (count_list tags t) key"
    using nk by (simp add: ok(3) b1)
  moreover have "Evictions (stats (Set key val ttl tags tCre tAcc dc)) = Evictions (stats dc) + 1"
    "Deletes (stats (Set key val ttl tags tCre tAcc dc)) = Deletes (stats dc)"
    by (simp_all add: ok(5) E)
  moreover note l
  moreover have "TotalItems (stats (Set key val ttl tags tCre tAcc dc)) = length (data dc)"
    using l by (simp add: ok(5) ok(4))
  ultimately show ?thesis by blast
qed

lemma fullCache_ok: "heapOk fullCache" "indexBacked fullCache"
  by code_simp+

lemma fullCache_facts:
  "length (data fullCache) = 2" "MaxSize (config fullCache) = 2"
  "fst ` set (data fullCache) = {''a'', ''b''}"
  "map_of (data fullCache) ''c'' = None"
  "Evictions (stats fullCache) = 0" "Deletes (stats fullCache) = 0"
  by code_simp+

theorem Set_new_key_at_capacity_witness:
  "heapOk fullCache \<and> indexBacked fullCache \<and>
   int (length (data fullCache)) = MaxSize (config fullCache) \<and>
   0 < MaxSize (config fullCache) \<and>
   [] \<notin> fst ` set (data fullCache) \<and>
   map_of (data fullCache) ''c'' = None \<and>
   Evictions (stats (Set ''c'' 5 0 [''w''] 9 9 fullCache)) = 1 \<and>
   Deletes (stats (Set ''c'' 5 0 [''w''] 9 9 fullCache)) = 0 \<and>
   length (data (Set ''c'' 5 0 [''w''] 9 9 fullCache)) = 2 \<and>
   TotalItems (stats (Set ''c'' 5 0 [''w''] 9 9 fullCache)) = 2"
proof -
  have a: "heapOk fullCache" "indexBacked fullCache"
    "int (length (data fullCache)) = MaxSize (config fullCache)"
    "0 < MaxSize (config fullCache)" "[] \<notin> fst ` set (data fullCache)"
    "map_of (data fullCache) ''c'' = None"
    by (simp_all add: fullCache_ok fullCache_facts)
  from Set_new_key_at_capacity [OF a, of 5 0 "[''w'']" 9 9]
  have "Evictions (stats (Set ''c'' 5 0 [''w''] 9 9 fullCache)) = Evictions (stats fullCache) + 1 \<and>
        Deletes (stats (Set ''c'' 5 0 [''w''] 9 9 fullCache)) = Deletes (stats fullCache) \<and>
        length (data (Set ''c'' 5 0 [''w''] 9 9 fullCache)) = length (data fullCache) \<and>
        TotalItems (stats (Set ''c'' 5 0 [''w''] 9 9 fullCache)) = length (data fullCache)"
    by blast
  with a show ?thesis by (simp add: fullCache_facts)
qed

text \<open>Without the two side conditions the claim C5 fails. With \<open>MaxSize = 0\<close> the empty
  store holds exactly \<open>MaxSize\<close> items and a \<open>Set\<close> evicts nothing and leaves one item.
  With \<open>MaxSize = 1\<close> and the empty key stored, the scan of \<open>evictLRU\<close> ends with
  \<open>oldestKey == ""\<close>, nothing is evicted and the store holds two items.\<close>

theorem Set_new_key_no_eviction:
  "length (data zeroCache) = 0 \<and> MaxSize (config zeroCache) = 0 \<and>
   map_of (data zeroCache) ''c'' = None \<and>
   Evictions (stats (Set ''c'' 5 0 [''w''] 9 9 zeroCache)) = Evictions (stats zeroCache) \<and>
   length (data (Set ''c'' 5 0 [''w''] 9 9 zeroCache)) = 1 \<and>
   length (data emptyKeyCache) = 1 \<and> MaxSize (config emptyKeyCache) = 1 \<and>
   map_of (data emptyKeyCache) ''c'' = None \<and>
   Evictions (stats (Set ''c'' 5 0 [''w''] 9 9 emptyKeyCache)) = Evictions (stats emptyKeyCache) \<and>
   length (data (Set ''c'' 5 0 [''w''] 9 9 emptyKeyCache)) = 2"
  by code_simp

lemma evictLRU_bucket_le:
  assumes h: "heapOk dc" and ib: "indexBacked dc"
  shows "count_list (bucket (evictLRU dc) t) k \<le> count_list (bucket dc t) k"
proof -
  from h have "distinct (map fst (data dc))" by (simp add: heapOk_def)
  then show ?thesis
  proof (cases rule: evictLRU_cases)
    case none
    then show ?thesis by simp
  next
    case (evict item)
    from dropItem(3) [OF h ib evict(2)] show ?thesis
      by (simp add: evict(3) count_list_removeAll)
  qed
qed

text \<open>
  Claim C8, as the code has it. \<open>addToTagIndex\<close> appends the key once for every
  occurrence of a tag in the tag list, so after a \<open>Set\<close> the slice of each tag holds the
  key as many times as the tag occurs in the list: the key is listed under exactly the
  tags of the list, and a tag written twice lists it twice. No other key gains an
  association. An empty tag list adds nothing: \<open>addToTagIndex\<close> returns the state as it
  is, and a \<open>Set\<close> of a new key below capacity leaves the index and its arrays untouched.
\<close>

theorem Set_tag_pairs:
  assumes h: "heapOk dc" and ib: "indexBacked dc"
  shows
   "(\<forall>t. count_list (bucket (Set key val ttl tags tCre tAcc dc) t) key = count_list tags t) \<and>
    (\<forall>t. key \<in> set (bucket (Set key val ttl tags tCre tAcc dc) t) \<longleftrightarrow> t \<in> set tags) \<and>
    (\<forall>t k. k \<noteq> key \<longrightarrow>
       count_list (bucket (Set key val ttl tags tCre tAcc dc) t) k \<le> count_list (bucket dc t) k) \<and>
    (int (length (data dc)) < MaxSize (config dc) \<longrightarrow>
       (\<forall>t. bucket (Set key val ttl tags tCre tAcc dc) t =
              removeAll key (bucket dc t) @ replicate (count_list tags t) key)) \<and>
    addToTagIndex key [] dc = dc \<and>
    (tags = [] \<longrightarrow> map_of (data dc) key = None \<longrightarrow>
       int (length (data dc)) < MaxSize (config dc) \<longrightarrow>
       tagIndex (Set key val ttl tags tCre tAcc dc) = tagIndex dc \<and>
       heap (Set key val ttl tags tCre tAcc dc) = heap dc)"
proof (intro conjI allI impI)
  fix t
  show c: "count_list (bucket (Set key val ttl tags tCre tAcc dc) t) key = count_list tags t"
    by (rule Set_key_buckets [OF h ib])
  show "key \<in> set (bucket (Set key val ttl tags tCre tAcc dc) t) \<longleftrightarrow> t \<in> set tags"
    unfolding member_count_list c ..
next
  fix t k assume k: "k \<noteq> key"
  define dc1 where "dc1 = (if int (length (data dc)) \<ge> MaxSize (config dc) then evictLRU dc else dc)"
  have ok1: "heapOk dc1" "indexBacked dc1"
    using h ib by (simp_all add: dc1_def evictLRU_ok)
  have "count_list (bucket (Set key val ttl tags tCre tAcc dc) t) k = count_list (bucket dc1 t) k"
    unfolding Set_storeItem dc1_def [symmetric] storeItem_ok(3) [OF ok1]
    using k by (simp add: count_list_removeAll count_list_replicate)
  also have "\<dots> \<le> count_list (bucket dc t) k"
    by (simp add: dc1_def evictLRU_bucket_le [OF h ib])
  finally show "count_list (bucket (Set key val ttl tags tCre tAcc dc) t) k
                  \<le> count_list (bucket dc t) k" .
next
  fix t assume "int (length (data dc)) < MaxSize (config dc)"
  then show "bucket (Set key val ttl tags tCre tAcc dc) t =
              removeAll key (bucket dc t) @ replicate (count_list tags t) key"
    by (simp add: Set_room storeItem_ok(3) [OF h ib])
next
  show "addToTagIndex key [] dc = dc" by (simp add: addToTagIndex_def)
next
  assume "tags = []" "map_of (data dc) key = None" "int (length (data dc)) < MaxSize (config dc)"
  then show "tagIndex (Set key val ttl tags tCre tAcc dc) = tagIndex dc"
    "heap (Set key val ttl tags tCre tAcc dc) = heap dc"
    by (simp_all add: Set_def Let_def addToTagIndex_def)
qed

lemma emptyCache_ok: "heapOk emptyCache" "indexBacked emptyCache"
  by code_simp+

theorem Set_tag_pairs_witness:
  "heapOk taggedCache \<and> indexBacked taggedCache \<and>
   int (length (data taggedCache)) < MaxSize (config taggedCache) \<and>
   map_of (data taggedCache) ''q'' = None \<and>
   count_list (bucket (Set ''q'' 5 0 [''t'', ''w'', ''t''] 9 9 taggedCache) ''t'') ''q'' = 2 \<and>
   bucket (Set ''q'' 5 0 [''t'', ''w'', ''t''] 9 9 taggedCache) ''t'' =
     [''a'', ''b'', ''c'', ''q'', ''q''] \<and>
   bucket (Set ''q'' 5 0 [''t'', ''w'', ''t''] 9 9 taggedCache) ''w'' = [''q''] \<and>
   ''q'' \<notin> set (bucket (Set ''q'' 5 0 [''t'', ''w'', ''t''] 9 9 taggedCache) ''v'') \<and>
   ''a'' \<noteq> ''q'' \<and>
   count_list (bucket (Set ''q'' 5 0 [''t'', ''w'', ''t''] 9 9 taggedCache) ''t'') ''a'' = 1 \<and>
   count_list (bucket taggedCache ''t'') ''a'' = 1 \<and>
   tagIndex (Set ''q'' 5 0 [] 9 9 taggedCache) = tagIndex taggedCache \<and>
   heap (Set ''q'' 5 0 [] 9 9 taggedCache) = heap taggedCache"
proof -
  have w: "bucket taggedCache ''w'' = []" by code_simp
  from Set_tag_pairs [OF taggedCache_ok(1,2), of "''q''" 5 0 "[''t'', ''w'', ''t'']" 9 9]
    Set_tag_pairs [OF taggedCache_ok(1,2), of "''q''" 5 0 "[]" 9 9]
  show ?thesis
    by (simp add: taggedCache_ok taggedCache_q taggedCache_facts w)
qed

text \<open>The claim C8 as stated fails for a repeated tag: the slice of \<open>t\<close> holds \<open>k\<close> twice
  after a \<open>Set\<close> with the tags \<open>t, t\<close>.\<close>

theorem Set_duplicate_tag_listed_twice:
  "bucket (Set ''k'' 5 0 [''t'', ''t''] 9 9 emptyCache) ''t'' = [''k'', ''k''] \<and>
   count_list (bucket (Set ''k'' 5 0 [''t'', ''t''] 9 9 emptyCache) ''t'') ''k'' = 2 \<and>
   tagIndex (Set ''k'' 5 0 [''t'', ''t''] 9 9 emptyCache) = [(''t'', \<lparr>ptr = 0, len = 2\<rparr>)] \<and>
   bucket emptyCache ''t'' = []"
  by code_simp

section \<open>The representation invariants hold in every reachable state\<close>

text \<open>
  The theorems on \<open>Set\<close> and \<open>Delete\<close> assume \<open>heapOk\<close> and \<open>indexBacked\<close>. Both hold
  after \<open>NewDistroCache\<close> and are kept by every method, \<open>InvalidateByTag\<close> included, so
  they hold in every state the engine can reach (\<open>reachable_ok\<close> below).
\<close>

lemma NewDistroCache_ok: "heapOk (NewDistroCache cfg g)" "indexBacked (NewDistroCache cfg g)"
  by (simp_all add: NewDistroCache_def heapOk_def indexBacked_def)

lemma Delete_ok:
  assumes "heapOk dc" "indexBacked dc"
  shows "heapOk (fst (Delete key dc))" and "indexBacked (fst (Delete key dc))"
proof -
  show "heapOk (fst (Delete key dc))"
  proof (cases "map_of (data dc) key")
    case None
    with assms show ?thesis by (simp add: Delete_absent)
  next
    case (Some item)
    from dropItem(1) [OF assms Some] show ?thesis by (simp add: Delete_present [OF Some])
  qed
  show "indexBacked (fst (Delete key dc))"
  proof (cases "map_of (data dc) key")
    case None
    with assms show ?thesis by (simp add: Delete_absent)
  next
    case (Some item)
    from dropItem(2) [OF assms Some] show ?thesis by (simp add: Delete_present [OF Some])
  qed
qed

lemma touch_ok:
  assumes h: "heapOk dc" and ib: "indexBacked dc" and m: "map_of (data dc) key = Some item"
    and t: "Tags item1 = Tags item"
  shows "heapOk (dc\<lparr>data := AList.update key item1 (data dc)\<rparr>)"
    and "indexBacked (dc\<lparr>data := AList.update key item1 (data dc)\<rparr>)"
proof -
  from h have "distinct (map fst (data dc))" by (simp add: heapOk_def)
  then show h1: "heapOk (dc\<lparr>data := AList.update key item1 (data dc)\<rparr>)"
    by (intro heapOk_data h distinct_update)
  have "tagCount (dc\<lparr>data := AList.update key item1 (data dc)\<rparr>) k t' = tagCount dc k t'" for k t'
    using m t by (simp add: tagCount_def update_conv')
  with ib show "indexBacked (dc\<lparr>data := AList.update key item1 (data dc)\<rparr>)"
    unfolding indexBacked_map [OF h] indexBacked_map [OF h1] by simp
qed

lemma Get_ok:
  assumes "heapOk dc" "indexBacked dc"
  shows "heapOk (fst (Get key tExp tAcc dc))" and "indexBacked (fst (Get key tExp tAcc dc))"
proof -
  show "heapOk (fst (Get key tExp tAcc dc))"
  proof (cases "map_of (data dc) key")
    case None
    with assms show ?thesis by (simp add: Get_def)
  next
    case (Some item)
    from touch_ok(1) [OF assms Some, of "item\<lparr>AccessedAt := tAcc, AccessCount := AccessCount item + 1\<rparr>"]
      assms Some
    show ?thesis by (simp add: Get_def Let_def)
  qed
  show "indexBacked (fst (Get key tExp tAcc dc))"
  proof (cases "map_of (data dc) key")
    case None
    with assms show ?thesis by (simp add: Get_def)
  next
    case (Some item)
    from touch_ok(2) [OF assms Some, of "item\<lparr>AccessedAt := tAcc, AccessCount := AccessCount item + 1\<rparr>"]
      assms Some
    show ?thesis by (simp add: Get_def Let_def)
  qed
qed

lemma cleanup_fold_ok:
  assumes "heapOk dc" "indexBacked dc" "distinct (map fst kvs)"
    "\<forall>kv \<in> set kvs. map_of (data dc) (fst kv) = Some (snd kv)"
  shows "heapOk (fold (cleanupStep clock) kvs dc) \<and> indexBacked (fold (cleanupStep clock) kvs dc)"
  using assms
proof (induction kvs arbitrary: dc)
  case Nil
  then show ?case by simp
next
  case (Cons kv kvs)
  from Cons.prems(4) have m: "map_of (data dc) (fst kv) = Some (snd kv)" by simp
  have ok: "heapOk (cleanupStep clock kv dc)" "indexBacked (cleanupStep clock kv dc)"
    using Cons.prems(1,2) dropItem(1,2) [OF Cons.prems(1,2) m]
    by (simp_all add: cleanupStep_def Let_def)
  have rest: "\<forall>kv' \<in> set kvs. map_of (data (cleanupStep clock kv dc)) (fst kv') = Some (snd kv')"
  proof
    fix kv' assume i: "kv' \<in> set kvs"
    from Cons.prems(3) have "fst kv \<notin> fst ` set kvs" by simp
    with i have "fst kv' \<noteq> fst kv" by (metis imageI)
    with Cons.prems(4) i show "map_of (data (cleanupStep clock kv dc)) (fst kv') = Some (snd kv')"
      by (simp add: cleanupStep_def Let_def)
  qed
  from Cons.prems(3) have "distinct (map fst kvs)" by simp
  from Cons.IH [OF ok this rest] show ?case by simp
qed

lemma cleanup_ok:
  assumes "heapOk dc" "indexBacked dc"
  shows "heapOk (cleanup clock dc)" and "indexBacked (cleanup clock dc)"
proof -
  from assms(1) have d: "distinct (map fst (data dc))" by (simp add: heapOk_def)
  then have "\<forall>kv \<in> set (data dc). map_of (data dc) (fst kv) = Some (snd kv)"
    by (simp add: map_of_eq_Some_iff)
  from cleanup_fold_ok [OF assms d this, of clock]
  show "heapOk (cleanup clock dc)" "indexBacked (cleanup clock dc)"
    by (simp_all add: cleanup_def Let_def)
qed

lemma invalidateStep_ok:
  assumes "heapOk (fst st)" "indexBacked (fst st)"
  shows "heapOk (fst (invalidateStep keys j st))" and "indexBacked (fst (invalidateStep keys j st))"
proof -
  show "heapOk (fst (invalidateStep keys j st))"
  proof (cases "map_of (data (fst st)) (heap (fst st) ! ptr keys ! j)")
    case None
    with assms show ?thesis by (simp add: invalidateStep_def Let_def)
  next
    case (Some item)
    from dropItem(1) [OF assms Some] Some show ?thesis
      by (simp add: invalidateStep_def Let_def)
  qed
  show "indexBacked (fst (invalidateStep keys j st))"
  proof (cases "map_of (data (fst st)) (heap (fst st) ! ptr keys ! j)")
    case None
    with assms show ?thesis by (simp add: invalidateStep_def Let_def)
  next
    case (Some item)
    from dropItem(2) [OF assms Some] Some show ?thesis
      by (simp add: invalidateStep_def Let_def)
  qed
qed

lemma invalidate_fold_ok:
  "heapOk (fst st) \<Longrightarrow> indexBacked (fst st) \<Longrightarrow>
   heapOk (fst (fold (invalidateStep keys) js st)) \<and>
   indexBacked (fst (fold (invalidateStep keys) js st))"
  by (induction js arbitrary: st) (simp_all add: invalidateStep_ok)

lemma dropTag_ok:
  assumes h: "heapOk dc" and ib: "indexBacked dc"
  shows "heapOk (dc\<lparr>tagIndex := AList.delete tag (tagIndex dc)\<rparr>)"
    and "indexBacked (dc\<lparr>tagIndex := AList.delete tag (tagIndex dc)\<rparr>)"
proof -
  show h1: "heapOk (dc\<lparr>tagIndex := AList.delete tag (tagIndex dc)\<rparr>)"
    using h unfolding heapOk_map
    by (auto simp: distinct_delete delete_conv' split: if_splits)
  have "bucket (dc\<lparr>tagIndex := AList.delete tag (tagIndex dc)\<rparr>) t =
          (if t = tag then [] else bucket dc t)" for t
    by (simp add: bucket_def delete_conv' split: option.splits)
  moreover have "tagCount (dc\<lparr>tagIndex := AList.delete tag (tagIndex dc)\<rparr>) = tagCount dc"
    by (simp add: tagCount_def fun_eq_iff)
  ultimately show "indexBacked (dc\<lparr>tagIndex := AList.delete tag (tagIndex dc)\<rparr>)"
    using ib unfolding indexBacked_map [OF h] indexBacked_map [OF h1] by simp
qed

lemma InvalidateByTag_ok:
  assumes "heapOk dc" "indexBacked dc"
  shows "heapOk (fst (InvalidateByTag tag dc))" and "indexBacked (fst (InvalidateByTag tag dc))"
proof -
  show "heapOk (fst (InvalidateByTag tag dc))"
  proof (cases "map_of (tagIndex dc) tag")
    case None
    with assms show ?thesis by (simp add: InvalidateByTag_def)
  next
    case (Some keys)
    from invalidate_fold_ok [of "(dc, 0)" keys "[0..<len keys]"] assms
    have "heapOk (fst (fold (invalidateStep keys) [0..<len keys] (dc, 0)))"
      "indexBacked (fst (fold (invalidateStep keys) [0..<len keys] (dc, 0)))" by simp_all
    from dropTag_ok(1) [OF this] Some show ?thesis
      by (simp add: InvalidateByTag_def Let_def)
  qed
  show "indexBacked (fst (InvalidateByTag tag dc))"
  proof (cases "map_of (tagIndex dc) tag")
    case None
    with assms show ?thesis by (simp add: InvalidateByTag_def)
  next
    case (Some keys)
    from invalidate_fold_ok [of "(dc, 0)" keys "[0..<len keys]"] assms
    have "heapOk (fst (fold (invalidateStep keys) [0..<len keys] (dc, 0)))"
      "indexBacked (fst (fold (invalidateStep keys) [0..<len keys] (dc, 0)))" by simp_all
    from dropTag_ok(2) [OF this] Some show ?thesis
      by (simp add: InvalidateByTag_def Let_def)
  qed
qed

lemma reachable_ok: "reachable dc \<Longrightarrow> heapOk dc \<and> indexBacked dc"
proof (induction rule: reachable.induct)
  case (init cfg g)
  show ?case by (simp add: NewDistroCache_ok)
next
  case (set dc key val ttl tags tCre tAcc)
  then show ?case by (simp add: Set_ok)
next
  case (get dc key tExp tAcc)
  then show ?case by (simp add: Get_ok)
next
  case (delete dc key)
  then show ?case by (simp add: Delete_ok)
next
  case (invalidate dc tag)
  then show ?case by (simp add: InvalidateByTag_ok)
next
  case (sweep dc clock)
  then show ?case by (simp add: cleanup_ok)
qed

section \<open>The invariant of the specification\<close>

lemma indexExact_map:
  assumes h: "heapOk dc"
  shows "indexExact dc \<longleftrightarrow> (\<forall>t k. count_list (bucket dc t) k = tagCount dc k t)"
proof
  assume e: "indexExact dc"
  then have ib: "\<And>t k. count_list (bucket dc t) k \<le> tagCount dc k t"
    unfolding indexExact_def indexBacked_map [OF h] by blast
  from h have d: "distinct (map fst (data dc))" by (simp add: heapOk_def)
  have "tagCount dc k t \<le> count_list (bucket dc t) k" for t k
  proof (cases "map_of (data dc) k")
    case None
    then show ?thesis by (simp add: tagCount_def)
  next
    case (Some item)
    then have i: "(k, item) \<in> set (data dc)" by (rule map_of_SomeD)
    show ?thesis
    proof (cases "t \<in> set (Tags item)")
      case True
      with e i have "count_list (Tags item) t \<le> count_list (bucket dc t) k"
        unfolding indexExact_def by force
      with Some show ?thesis by (simp add: tagCount_def)
    next
      case False
      with Some show ?thesis by (simp add: tagCount_def count_list_0_iff)
    qed
  qed
  with ib show "\<forall>t k. count_list (bucket dc t) k = tagCount dc k t"
    by (simp add: le_antisym)
next
  assume r: "\<forall>t k. count_list (bucket dc t) k = tagCount dc k t"
  from h have d: "distinct (map fst (data dc))" by (simp add: heapOk_def)
  have "indexBacked dc"
    unfolding indexBacked_map [OF h] using r by simp
  moreover have "count_list (Tags (snd kv)) t \<le> count_list (bucket dc t) (fst kv)"
    if "kv \<in> set (data dc)" for kv t
  proof -
    from that have "(fst kv, snd kv) \<in> set (data dc)" by simp
    with d have "map_of (data dc) (fst kv) = Some (snd kv)"
      by (simp only: map_of_eq_Some_iff)
    then have "tagCount dc (fst kv) t = count_list (Tags (snd kv)) t"
      by (simp add: tagCount_def)
    with r show ?thesis by simp
  qed
  ultimately show "indexExact dc"
    unfolding indexExact_def by blast
qed

lemma indexExact_backed: "indexExact dc \<Longrightarrow> indexBacked dc"
  by (simp add: indexExact_def)

lemma consistent_of_exact:
  assumes h: "heapOk dc" and e: "indexExact dc" and n: "noEmptyBucket dc"
  shows "consistent dc"
proof -
  from h have d: "distinct (map fst (data dc))" "distinct (map fst (tagIndex dc))"
    by (simp_all add: heapOk_def)
  note c = e [unfolded indexExact_map [OF h], rule_format]
  have 1: "fst kv \<in> set (bucket dc t)" if "kv \<in> set (data dc)" "t \<in> set (Tags (snd kv))" for kv t
  proof -
    from that(1) have "(fst kv, snd kv) \<in> set (data dc)" by simp
    with d(1) have "map_of (data dc) (fst kv) = Some (snd kv)"
      by (simp only: map_of_eq_Some_iff)
    then have "count_list (bucket dc t) (fst kv) = count_list (Tags (snd kv)) t"
      by (simp add: c tagCount_def)
    with that(2) show ?thesis
      by (simp add: member_count_list)
  qed
  have 2: "case map_of (data dc) k of None \<Rightarrow> False | Some item \<Rightarrow> fst ts \<in> set (Tags item)"
    if "ts \<in> set (tagIndex dc)" "k \<in> set (elems (heap dc) (snd ts))" for ts k
  proof -
    from that(1) have "(fst ts, snd ts) \<in> set (tagIndex dc)" by simp
    with d(2) have "map_of (tagIndex dc) (fst ts) = Some (snd ts)"
      by (simp only: map_of_eq_Some_iff)
    then have "bucket dc (fst ts) = elems (heap dc) (snd ts)" by (simp add: bucket_def)
    with that(2) have "0 < tagCount dc k (fst ts)"
      by (simp add: c [symmetric] member_count_list)
    then show ?thesis
      by (cases "map_of (data dc) k") (simp_all add: tagCount_def member_count_list)
  qed
  from 1 2 n show ?thesis
    unfolding consistent_def list_all_iff by blast
qed

lemma dropItem_exact:
  assumes h: "heapOk dc" and e: "indexExact dc" and m: "map_of (data dc) k0 = Some item"
  shows "indexExact ((removeFromTagIndex k0 (Tags item) dc)\<lparr>data := AList.delete k0 (data dc)\<rparr>)"
proof -
  note ib = indexExact_backed [OF e]
  note c = e [unfolded indexExact_map [OF h], rule_format]
  show ?thesis
    unfolding indexExact_map [OF dropItem(1) [OF h ib m]] dropItem(3) [OF h ib m]
    by (simp add: count_list_removeAll c tagCount_def delete_conv')
qed

lemma storeItem_exact:
  assumes h: "heapOk dc1" and e: "indexExact dc1"
  shows "indexExact (storeItem key val ttl tags tCre tAcc dc1)"
proof -
  note ib = indexExact_backed [OF e]
  note c = e [unfolded indexExact_map [OF h], rule_format]
  note ok = storeItem_ok [OF h ib, of key val ttl tags tCre tAcc]
  show ?thesis
    unfolding indexExact_map [OF ok(1)] ok(3)
    by (simp add: count_list_removeAll count_list_replicate c tagCount_def ok(4) update_conv')
qed

lemma evictLRU_exact:
  assumes h: "heapOk dc" and e: "indexExact dc" and n: "noEmptyBucket dc"
  shows "indexExact (evictLRU dc)" and "noEmptyBucket (evictLRU dc)"
proof -
  from h have d: "distinct (map fst (data dc))" "distinct (map fst (tagIndex dc))"
    by (simp_all add: heapOk_def)
  from d(1) show "indexExact (evictLRU dc)"
  proof (cases rule: evictLRU_cases)
    case none
    with e show ?thesis by simp
  next
    case (evict item)
    from dropItem_exact [OF h e evict(2)] show ?thesis
      by (simp add: evict(3) indexExact_def indexBacked_def tagCount_def)
  qed
  from d(1) show "noEmptyBucket (evictLRU dc)"
  proof (cases rule: evictLRU_cases)
    case none
    with n show ?thesis by simp
  next
    case (evict item)
    from removeFromTagIndex_noEmpty [OF d(2) n] show ?thesis
      by (simp add: evict(3) noEmptyBucket_def)
  qed
qed

lemma Set_exact:
  assumes h: "heapOk dc" and e: "indexExact dc" and n: "noEmptyBucket dc"
  shows "indexExact (Set key val ttl tags tCre tAcc dc)"
    and "noEmptyBucket (Set key val ttl tags tCre tAcc dc)"
proof -
  note ib = indexExact_backed [OF e]
  define dc1 where "dc1 = (if int (length (data dc)) \<ge> MaxSize (config dc) then evictLRU dc else dc)"
  have ok1: "heapOk dc1" "indexExact dc1" "noEmptyBucket dc1"
    using h e n ib by (simp_all add: dc1_def evictLRU_ok evictLRU_exact)
  show "indexExact (Set key val ttl tags tCre tAcc dc)"
    unfolding Set_storeItem dc1_def [symmetric] by (rule storeItem_exact [OF ok1(1,2)])
  show "noEmptyBucket (Set key val ttl tags tCre tAcc dc)"
    unfolding Set_storeItem dc1_def [symmetric]
    by (rule storeItem_ok(7) [OF ok1(1) indexExact_backed [OF ok1(2)] ok1(3)])
qed

lemma Delete_exact:
  assumes h: "heapOk dc" and e: "indexExact dc" and n: "noEmptyBucket dc"
  shows "indexExact (fst (Delete key dc))" and "noEmptyBucket (fst (Delete key dc))"
proof -
  from h have d: "distinct (map fst (tagIndex dc))" by (simp add: heapOk_def)
  show "indexExact (fst (Delete key dc))"
  proof (cases "map_of (data dc) key")
    case None
    with e show ?thesis by (simp add: Delete_absent)
  next
    case (Some item)
    from dropItem_exact [OF h e Some] show ?thesis
      by (simp add: Delete_present [OF Some] indexExact_def indexBacked_def tagCount_def)
  qed
  show "noEmptyBucket (fst (Delete key dc))"
  proof (cases "map_of (data dc) key")
    case None
    with n show ?thesis by (simp add: Delete_absent)
  next
    case (Some item)
    from removeFromTagIndex_noEmpty [OF d n] show ?thesis
      by (simp add: Delete_present [OF Some] noEmptyBucket_def)
  qed
qed

lemma Get_exact:
  assumes h: "heapOk dc" and e: "indexExact dc" and n: "noEmptyBucket dc"
  shows "indexExact (fst (Get key tExp tAcc dc))" and "noEmptyBucket (fst (Get key tExp tAcc dc))"
proof -
  note c = e [unfolded indexExact_map [OF h], rule_format]
  have "tagCount (fst (Get key tExp tAcc dc)) k t = tagCount dc k t" for k t
    by (simp add: Get_def Let_def tagCount_def update_conv' split: option.splits)
  moreover have "bucket (fst (Get key tExp tAcc dc)) = bucket dc"
    by (simp add: Get_def Let_def split: option.splits)
  ultimately show "indexExact (fst (Get key tExp tAcc dc))"
    unfolding indexExact_map [OF Get_ok(1) [OF h indexExact_backed [OF e]]]
    by (simp add: c)
  show "noEmptyBucket (fst (Get key tExp tAcc dc))"
    using n by (simp add: Get_def Let_def noEmptyBucket_def split: option.splits)
qed

lemma cleanup_fold_exact:
  assumes "heapOk dc" "indexExact dc" "noEmptyBucket dc" "distinct (map fst kvs)"
    "\<forall>kv \<in> set kvs. map_of (data dc) (fst kv) = Some (snd kv)"
  shows "indexExact (fold (cleanupStep clock) kvs dc) \<and>
         noEmptyBucket (fold (cleanupStep clock) kvs dc)"
  using assms
proof (induction kvs arbitrary: dc)
  case Nil
  then show ?case by simp
next
  case (Cons kv kvs)
  from Cons.prems(5) have m: "map_of (data dc) (fst kv) = Some (snd kv)" by simp
  note ib = indexExact_backed [OF Cons.prems(2)]
  from Cons.prems(1) have dt: "distinct (map fst (tagIndex dc))" by (simp add: heapOk_def)
  have ok: "heapOk (cleanupStep clock kv dc)" "indexExact (cleanupStep clock kv dc)"
    "noEmptyBucket (cleanupStep clock kv dc)"
    using Cons.prems(1,2,3) dropItem(1) [OF Cons.prems(1) ib m]
      dropItem_exact [OF Cons.prems(1,2) m] removeFromTagIndex_noEmpty [OF dt Cons.prems(3)]
    by (simp_all add: cleanupStep_def Let_def)
  have rest: "\<forall>kv' \<in> set kvs. map_of (data (cleanupStep clock kv dc)) (fst kv') = Some (snd kv')"
  proof
    fix kv' assume i: "kv' \<in> set kvs"
    from Cons.prems(4) have "fst kv \<notin> fst ` set kvs" by simp
    with i have "fst kv' \<noteq> fst kv" by (metis imageI)
    with Cons.prems(5) i show "map_of (data (cleanupStep clock kv dc)) (fst kv') = Some (snd kv')"
      by (simp add: cleanupStep_def Let_def)
  qed
  from Cons.prems(4) have "distinct (map fst kvs)" by simp
  from Cons.IH [OF ok this rest] show ?case by simp
qed

lemma cleanup_exact:
  assumes h: "heapOk dc" and e: "indexExact dc" and n: "noEmptyBucket dc"
  shows "indexExact (cleanup clock dc)" and "noEmptyBucket (cleanup clock dc)"
proof -
  from h have d: "distinct (map fst (data dc))" by (simp add: heapOk_def)
  then have "\<forall>kv \<in> set (data dc). map_of (data dc) (fst kv) = Some (snd kv)"
    by (simp add: map_of_eq_Some_iff)
  from cleanup_fold_exact [OF h e n d this, of clock]
  show "indexExact (cleanup clock dc)" "noEmptyBucket (cleanup clock dc)"
    by (simp_all add: cleanup_def Let_def indexExact_def indexBacked_def tagCount_def)
qed

text \<open>The invariant of the specification holds after \<open>NewDistroCache\<close> and is kept,
  together with the exact count of the associations, by \<open>Set\<close> (with its eviction),
  \<open>Get\<close>, \<open>Delete\<close> and the sweep.\<close>

lemma consistent_kept:
  assumes "heapOk dc" "indexExact dc" "noEmptyBucket dc"
  shows "consistent dc"
    and "consistent (Set key val ttl tags tCre tAcc dc)"
    and "consistent (fst (Get key tExp tAcc dc))"
    and "consistent (fst (Delete key dc))"
    and "consistent (cleanup clock dc)"
proof -
  note ib = indexExact_backed [OF assms(2)]
  show "consistent dc" by (rule consistent_of_exact [OF assms])
  show "consistent (Set key val ttl tags tCre tAcc dc)"
    by (rule consistent_of_exact [OF Set_ok(1) [OF assms(1) ib] Set_exact [OF assms]])
  show "consistent (fst (Get key tExp tAcc dc))"
    by (rule consistent_of_exact [OF Get_ok(1) [OF assms(1) ib] Get_exact [OF assms]])
  show "consistent (fst (Delete key dc))"
    by (rule consistent_of_exact [OF Delete_ok(1) [OF assms(1) ib] Delete_exact [OF assms]])
  show "consistent (cleanup clock dc)"
    by (rule consistent_of_exact [OF cleanup_ok(1) [OF assms(1) ib] cleanup_exact [OF assms]])
qed

lemma NewDistroCache_exact:
  "indexExact (NewDistroCache cfg g)" "noEmptyBucket (NewDistroCache cfg g)"
  by (simp_all add: NewDistroCache_def indexExact_def indexBacked_def noEmptyBucket_def)

text \<open>
  Claim C2. The invariant of the specification is meant to hold after every operation.
  \<open>InvalidateByTag\<close> breaks it: its loop reads the keys from the array that
  \<open>removeFromTagIndex\<close> shifts while the loop runs, so with three keys under a tag the
  second one is never visited. In the state \<open>taggedCache\<close>, where the invariant holds,
  the item \<open>b\<close> stays in the store with its tag \<open>t\<close> while the tag leaves the index.
  (\<open>consistent_kept\<close> above shows that the other operations keep the invariant.)
\<close>

theorem InvalidateByTag_breaks_invariant:
  "consistent taggedCache \<and>
   \<not> consistent (fst (InvalidateByTag ''t'' taggedCache)) \<and>
   map (\<lambda>kv. (fst kv, Tags (snd kv))) (data (fst (InvalidateByTag ''t'' taggedCache))) =
     [(''b'', [''t''])] \<and>
   bucket (fst (InvalidateByTag ''t'' taggedCache)) ''t'' = []"
  by code_simp

section \<open>InvalidateByTag\<close>

text \<open>The arrays keep their number and their sizes while keys are removed, so the reads
  of the loop of \<open>InvalidateByTag\<close> through the header it took before the loop stay
  inside the array, as they do in Go.\<close>

lemma removeKey_shape:
  assumes "heapOk dc"
  shows "map length (heap (removeKey key tag dc)) = map length (heap dc)"
proof (cases "map_of (tagIndex dc) tag")
  case None
  then show ?thesis by (simp add: removeKey_heap)
next
  case (Some keys)
  from assms Some have b: "ptr keys < length (heap dc)" "len keys \<le> length (heap dc ! ptr keys)"
    unfolding heapOk_map by blast+
  show ?thesis
  proof (cases "indexOf key (elems (heap dc) keys)")
    case None
    with Some show ?thesis by (simp add: removeKey_heap)
  next
    case (Some i)
    from indexOf_Some [OF Some] b have "i < len keys" by (simp add: elems_def)
    with b have "length (deleteAt i (len keys) (heap dc ! ptr keys)) = length (heap dc ! ptr keys)"
      by (simp add: deleteAt_length)
    with b Some \<open>map_of (tagIndex dc) tag = Some keys\<close> show ?thesis
      by (simp add: removeKey_heap map_update list_update_same_conv)
  qed
qed

lemma removeFromTagIndex_shape:
  "heapOk dc \<Longrightarrow> map length (heap (removeFromTagIndex key tags dc)) = map length (heap dc)"
  unfolding removeFromTagIndex_def
  by (induction tags arbitrary: dc) (simp_all add: removeKey_shape removeKey_heapOk)

lemma invalidateStep_shape:
  "heapOk (fst st) \<Longrightarrow>
   map length (heap (fst (invalidateStep keys j st))) = map length (heap (fst st))"
  by (simp add: invalidateStep_def Let_def removeFromTagIndex_shape split: option.splits)

lemma invalidate_fold_shape:
  "heapOk (fst st) \<Longrightarrow> indexBacked (fst st) \<Longrightarrow>
   map length (heap (fst (fold (invalidateStep keys) js st))) = map length (heap (fst st))"
proof (induction js arbitrary: st)
  case Nil
  then show ?case by simp
next
  case (Cons j js)
  from Cons.IH [OF invalidateStep_ok [OF Cons.prems]] invalidateStep_shape [OF Cons.prems(1)]
  show ?case by simp
qed

lemma InvalidateByTag_reads_in_range:
  assumes "heapOk dc" "indexBacked dc" "map_of (tagIndex dc) tag = Some keys" "j < len keys"
  shows "ptr keys < length (heap (fst (fold (invalidateStep keys) js (dc, 0)))) \<and>
         j < length (heap (fst (fold (invalidateStep keys) js (dc, 0))) ! ptr keys)"
proof -
  from assms(1,3) have b: "ptr keys < length (heap dc)" "len keys \<le> length (heap dc ! ptr keys)"
    unfolding heapOk_map by blast+
  from invalidate_fold_shape [of "(dc, 0)" keys js] assms(1,2)
  have s: "map length (heap (fst (fold (invalidateStep keys) js (dc, 0)))) = map length (heap dc)"
    by simp
  then have l: "length (heap (fst (fold (invalidateStep keys) js (dc, 0)))) = length (heap dc)"
    by (metis length_map)
  with s b(1) have "length (heap (fst (fold (invalidateStep keys) js (dc, 0))) ! ptr keys) =
                    length (heap dc ! ptr keys)"
    by (metis nth_map)
  with l b assms(4) show ?thesis by simp
qed

lemma invalidateStep_count:
  assumes "heapOk (fst st)"
  shows "length (data (fst (invalidateStep keys j st))) + snd (invalidateStep keys j st) =
         length (data (fst st)) + snd st"
proof (cases "map_of (data (fst st)) (heap (fst st) ! ptr keys ! j)")
  case None
  then show ?thesis by (simp add: invalidateStep_def Let_def)
next
  case (Some item)
  from assms have d: "distinct (map fst (data (fst st)))" by (simp add: heapOk_def)
  from Some have "data (fst st) \<noteq> []" by auto
  with length_delete_present [OF d Some] Some show ?thesis
    by (simp add: invalidateStep_def Let_def)
qed

lemma invalidate_fold_count:
  "heapOk (fst st) \<Longrightarrow> indexBacked (fst st) \<Longrightarrow>
   length (data (fst (fold (invalidateStep keys) js st))) + snd (fold (invalidateStep keys) js st) =
   length (data (fst st)) + snd st"
proof (induction js arbitrary: st)
  case Nil
  then show ?case by simp
next
  case (Cons j js)
  from Cons.IH [OF invalidateStep_ok [OF Cons.prems]] invalidateStep_count [OF Cons.prems(1)]
  show ?case by simp
qed

text \<open>What \<open>InvalidateByTag\<close> does achieve in every reachable state: the number it
  returns is the number of items that left the store, and the tag is no longer in the
  index.\<close>

lemma InvalidateByTag_count_and_domain:
  assumes "heapOk dc" "indexBacked dc"
  shows "length (data (fst (InvalidateByTag tag dc))) + snd (InvalidateByTag tag dc) =
           length (data dc)"
    and "map_of (tagIndex (fst (InvalidateByTag tag dc))) tag = None"
proof -
  show "length (data (fst (InvalidateByTag tag dc))) + snd (InvalidateByTag tag dc) =
          length (data dc)"
  proof (cases "map_of (tagIndex dc) tag")
    case None
    then show ?thesis by (simp add: InvalidateByTag_def)
  next
    case (Some keys)
    from invalidate_fold_count [of "(dc, 0)" keys "[0..<len keys]"] assms Some
    show ?thesis by (simp add: InvalidateByTag_def Let_def)
  qed
  show "map_of (tagIndex (fst (InvalidateByTag tag dc))) tag = None"
    by (simp add: InvalidateByTag_def Let_def delete_conv' split: option.splits)
qed

text \<open>
  Claim C1. \<open>InvalidateByTag\<close> is meant to remove every key that bears the tag, so that a
  later \<open>Get\<close> of such a key misses. With the keys \<open>a\<close>, \<open>b\<close> and \<open>c\<close> under the
  tag \<open>t\<close> it removes \<open>a\<close> and \<open>c\<close> and returns 2; \<open>b\<close> stays in the store and a
  \<open>Get\<close> of \<open>b\<close> is a hit. The first deletion moves \<open>b\<close> and \<open>c\<close> down by one cell in
  the array the loop is reading, so the loop's second and third reads both see \<open>c\<close>.
\<close>

theorem InvalidateByTag_skips_key:
  "bucket taggedCache ''t'' = [''a'', ''b'', ''c''] \<and>
   map (\<lambda>kv. (fst kv, Tags (snd kv))) (data taggedCache) =
     [(''a'', [''t'']), (''b'', [''t'']), (''c'', [''t''])] \<and>
   snd (InvalidateByTag ''t'' taggedCache) = 2 \<and>
   map fst (data (fst (InvalidateByTag ''t'' taggedCache))) = [''b''] \<and>
   tagIndex (fst (InvalidateByTag ''t'' taggedCache)) = [] \<and>
   snd (Get ''b'' 5 6 (fst (InvalidateByTag ''t'' taggedCache))) =
     (Some \<lparr>Key = ''b'', Value = 2, TTL = 0, CreatedAt = 2, AccessedAt = 6, AccessCount = 2,
            Tags = [''t'']\<rparr>, None) \<and>
   Hits (stats (fst (Get ''b'' 5 6 (fst (InvalidateByTag ''t'' taggedCache))))) = 1"
  by code_simp

section \<open>The Deletes counter\<close>

lemma evictLRU_Deletes: "Deletes (stats (evictLRU dc)) = Deletes (stats dc)"
  by (simp add: evictLRU_def Let_def split: option.splits)

lemma Set_Deletes: "Deletes (stats (Set key val ttl tags tCre tAcc dc)) = Deletes (stats dc)"
  by (simp add: Set_def Let_def evictLRU_Deletes split: option.splits)

lemma Get_Deletes: "Deletes (stats (fst (Get key tExp tAcc dc))) = Deletes (stats dc)"
  by (simp add: Get_def Let_def split: option.splits)

lemma cleanup_fold_stats: "stats (fold (cleanupStep clock) kvs dc) = stats dc"
  by (induction kvs arbitrary: dc) (simp_all add: cleanupStep_def Let_def)

lemma cleanup_Deletes: "Deletes (stats (cleanup clock dc)) = Deletes (stats dc)"
  by (simp add: cleanup_def Let_def cleanup_fold_stats)

lemma invalidateStep_stats: "stats (fst (invalidateStep keys j st)) = stats (fst st)"
  by (simp add: invalidateStep_def Let_def split: option.splits)

lemma invalidate_fold_stats: "stats (fst (fold (invalidateStep keys) js st)) = stats (fst st)"
  by (induction js arbitrary: st) (simp_all add: invalidateStep_stats)

lemma InvalidateByTag_Deletes: "Deletes (stats (fst (InvalidateByTag tag dc))) = Deletes (stats dc)"
  by (simp add: InvalidateByTag_def Let_def invalidate_fold_stats split: option.splits)

lemma Delete_Deletes:
  "Deletes (stats (fst (Delete key dc))) =
     (if map_of (data dc) key = None then Deletes (stats dc) else Deletes (stats dc) + 1)"
  by (simp add: Delete_def Let_def split: option.splits)

text \<open>
  Claim C4. The \<open>Deletes\<close> counter is meant to count explicit deletes only. The lemmas
  above show that \<open>Set\<close> (with its eviction), \<open>InvalidateByTag\<close>, the sweep and \<open>Get\<close>
  itself leave it as it is. But a \<open>Get\<close> that finds an expired item starts
  \<open>go dc.Delete(key)\<close>, and that \<open>Delete\<close> counts: for the expired key \<open>x\<close> the counter
  goes from 0 to 1 with no explicit delete, while the sweep removes the same item
  without counting.
\<close>

theorem lazy_expiry_counts_as_delete:
  "map_of (data ttlCache) ''x'' =
     Some \<lparr>Key = ''x'', Value = 7, TTL = 5, CreatedAt = 0, AccessedAt = 0, AccessCount = 1,
           Tags = [''u'']\<rparr> \<and>
   IsExpired 10 \<lparr>Key = ''x'', Value = 7::nat, TTL = 5, CreatedAt = 0, AccessedAt = 0,
                 AccessCount = 1, Tags = [''u'']\<rparr> \<and>
   snd (Get ''x'' 10 11 ttlCache) = (None, Some ''x'') \<and>
   Deletes (stats ttlCache) = 0 \<and>
   Deletes (stats (fst (Get ''x'' 10 11 ttlCache))) = 0 \<and>
   snd (Delete ''x'' (fst (Get ''x'' 10 11 ttlCache))) = True \<and>
   Deletes (stats (fst (Delete ''x'' (fst (Get ''x'' 10 11 ttlCache))))) = 1 \<and>
   Deletes (stats (cleanup (\<lambda>k. 10) ttlCache)) = 0 \<and>
   map_of (data (cleanup (\<lambda>k. 10) ttlCache)) ''x'' = None"
  by code_simp

end
